theory Spec2Isabelle
  imports Main "HOL-Library.Sublist"
begin

section \<open>Python values shared by the model\<close>

text \<open>
  Exceptions of the Python program are values of \<open>error\<close>; a call that may raise returns
  \<open>error + 'a\<close> with \<open>Inl\<close> for the exception.  \<open>SystemExit\<close> is what \<open>sys.exit\<close> raises.
\<close>

datatype error =
    KeyError string
  | ValueError
  | TypeError
  | AttributeError
  | FileExistsError
  | FileNotFoundError
  | NotADirectoryError
  | IsADirectoryError
  | YAMLError
  | SystemExit int
  | RemoteError string

text \<open>
  A \<open>pathlib\<close> path is the list of its components below the root; \<open>p / "x"\<close> is
  \<open>p @ [''x'']\<close>, \<open>p.parent\<close> is \<open>butlast p\<close>.
\<close>

type_synonym path = "string list"

type_synonym command = "string list"

fun as_posix :: "path \<Rightarrow> string" where
  "as_posix [] = ''/''"
| "as_posix (c # cs) = concat (map (\<lambda>x. CHR ''/'' # x) (c # cs))"

section \<open>Collaborators outside the sources\<close>

text \<open>
  The command builders of \<open>devious.wrappers.docker\<close> and \<open>devious.wrappers.linux\<close> are
  not part of the sources; the model takes them as parameters.
\<close>

record wrappers =
  install_docker :: command
  docker_compose_build :: "path \<Rightarrow> command"
  apt_get_install :: "string list \<Rightarrow> command"

text \<open>
  Modelled from the spec: \<open>linux.chain_commands\<close> is missing from the sources.  The spec
  describes the command-chaining collaborator as: given an ordered list of
  command-argument-lists and a join operator, it returns one composite command.  The
  composite is the commands in order with the operator between neighbours.
\<close>

fun chain_commands :: "command list \<Rightarrow> string \<Rightarrow> command" where
  "chain_commands [] operator = []"
| "chain_commands [c] operator = c"
| "chain_commands (c # cs) operator = c @ operator # chain_commands cs operator"

text \<open>
  Modelled from the spec: the remote shell that receives a composite command belongs to
  the remote host.  The spec speaks of an unconditional sequencing operator and of a
  short-circuit-on-success operator; they are the \<open>;\<close> and \<open>&&\<close> of the POSIX shell.  Each
  token is one word of the command line, and \<open>;\<close> and \<open>&&\<close> are operators where they are
  words by themselves.  A command line is a sequence of lists separated by \<open>;\<close>, a list is
  a sequence of simple commands separated by \<open>&&\<close>.  The lists run one after the other
  whatever their exit statuses are; inside a list the simple commands run from the left
  until one exits with a status other than 0, and the rest of that list, up to the next
  \<open>;\<close>, is skipped.

  \<open>st done c\<close> is the exit status of the simple command \<open>c\<close> when the commands \<open>done\<close> ran
  before it.  \<open>sh_exec st done cur skip ts\<close> reads the tokens \<open>ts\<close>: \<open>cur\<close> is the simple
  command read so far, \<open>skip\<close> tells that the current list has failed.  The result is the
  list of the simple commands that were executed, in order.
\<close>

fun sh_exec :: "(command list \<Rightarrow> command \<Rightarrow> int) \<Rightarrow> command list \<Rightarrow> command \<Rightarrow> bool \<Rightarrow> string list \<Rightarrow> command list" where
  "sh_exec st done cur skip [] = (if skip then done else done @ [cur])"
| "sh_exec st done cur skip (t # ts) =
     (if t = '';'' then sh_exec st (if skip then done else done @ [cur]) [] False ts
      else if t = ''&&'' then
        (if skip then sh_exec st done [] True ts
         else sh_exec st (done @ [cur]) [] (st done cur \<noteq> 0) ts)
      else sh_exec st done (cur @ [t]) skip ts)"

text \<open>\<open>sh st done c\<close>: the shell runs the command line \<open>c\<close> after the commands \<open>done\<close>.\<close>

definition sh :: "(command list \<Rightarrow> command \<Rightarrow> int) \<Rightarrow> command list \<Rightarrow> command \<Rightarrow> command list" where
  "sh st done c = sh_exec st done [] False c"

definition is_operator :: "string \<Rightarrow> bool" where
  "is_operator t = (t = '';'' \<or> t = ''&&'')"

text \<open>The first simple command of a command line: its words up to the first operator.\<close>

definition first_simple :: "command \<Rightarrow> command" where
  "first_simple c = takeWhile (\<lambda>t. \<not> is_operator t) c"

section \<open>The certificate setup procedure\<close>

definition certbot_cmd :: "string \<Rightarrow> string \<Rightarrow> command" where
  "certbot_cmd domain_name email =
     [''certbot'', ''--nginx'', ''--agree-tos'', ''--test-cert'', ''--non-interactive'',
      ''--email'', email, ''-d'', domain_name]"

definition ssl_commands :: "wrappers \<Rightarrow> string \<Rightarrow> string \<Rightarrow> command list" where
  "ssl_commands W domain_name email =
     [apt_get_install W [''python3'', ''python3-venv'', ''libaugeas0''],
      [''python3'', ''-m'', ''venv'', ''/opt/certbot/''],
      [''/opt/certbot/bin/pip'', ''install'', ''--upgrade'', ''pip''],
      [''/opt/certbot/bin/pip'', ''install'', ''certbot'', ''certbot-nginx''],
      [''ln'', ''-s'', ''/opt/certbot/bin/certbot'', ''/usr/bin/certbot''],
      [''pkill'', ''nginx''],
      certbot_cmd domain_name email,
      [''pkill'', ''nginx'']]"

definition set_up_ssl_cert :: "wrappers \<Rightarrow> string \<Rightarrow> string \<Rightarrow> command" where
  "set_up_ssl_cert W domain_name email = chain_commands (ssl_commands W domain_name email) '';''"

definition demo_wrappers :: wrappers where
  "demo_wrappers =
     \<lparr> install_docker = [''sh'', ''get-docker.sh''],
       docker_compose_build = (\<lambda>p. [''docker'', ''compose'', ''-f'', as_posix p, ''build'']),
       apt_get_install = (\<lambda>pkgs. [''apt-get'', ''install'', ''-y''] @ pkgs) \<rparr>"

text \<open>A package installer that refreshes the package index first.\<close>

definition apt_update_wrappers :: wrappers where
  "apt_update_wrappers =
     demo_wrappers \<lparr> apt_get_install :=
       (\<lambda>pkgs. [''apt-get'', ''update'', ''&&'', ''apt-get'', ''install'', ''-y''] @ pkgs) \<rparr>"

section \<open>The local file system\<close>

text \<open>
  The local file system is a map from paths to nodes; the root \<open>[]\<close> is always a
  directory.  A file holds its text.  In a well-formed file system every ancestor of a
  node is a directory.
\<close>

datatype node = Dir | File string

type_synonym fs = "path \<Rightarrow> node option"

definition stat :: "fs \<Rightarrow> path \<Rightarrow> node option" where
  "stat fs p = (if p = [] then Some Dir else fs p)"

definition is_dir :: "fs \<Rightarrow> path \<Rightarrow> bool" where
  "is_dir fs p = (stat fs p = Some Dir)"

definition is_file :: "fs \<Rightarrow> path \<Rightarrow> bool" where
  "is_file fs p = (case stat fs p of Some (File t) \<Rightarrow> True | _ \<Rightarrow> False)"

definition wf_fs :: "fs \<Rightarrow> bool" where
  "wf_fs fs = (\<forall>p q. strict_prefix q p \<and> fs p \<noteq> None \<longrightarrow> is_dir fs q)"

text \<open>\<open>Path.read_text\<close>.\<close>

definition read_text :: "fs \<Rightarrow> path \<Rightarrow> error + string" where
  "read_text fs p =
     (case stat fs p of
        None \<Rightarrow> Inl FileNotFoundError
      | Some Dir \<Rightarrow> Inl IsADirectoryError
      | Some (File t) \<Rightarrow> Inr t)"

text \<open>
  \<open>Path.write_text\<close>: opens the file for writing, creating it when its parent is a
  directory, and replaces its contents.
\<close>

definition write_text :: "path \<Rightarrow> string \<Rightarrow> fs \<Rightarrow> error + fs" where
  "write_text p t fs =
     (case stat fs p of
        Some Dir \<Rightarrow> Inl IsADirectoryError
      | Some (File old) \<Rightarrow> Inr (fs(p \<mapsto> File t))
      | None \<Rightarrow>
         (case stat fs (butlast p) of
            Some Dir \<Rightarrow> Inr (fs(p \<mapsto> File t))
          | Some (File x) \<Rightarrow> Inl NotADirectoryError
          | None \<Rightarrow> Inl FileNotFoundError))"

text \<open>
  \<open>Path.mkdir(parents=True, exist_ok=True)\<close>: \<open>mkdirs done rest\<close> walks the components
  \<open>rest\<close> below the path \<open>done\<close>; a missing component is created, an existing directory
  is accepted, and a regular file in the way raises (\<open>FileExistsError\<close> for the path
  itself, \<open>NotADirectoryError\<close> for an ancestor).
\<close>

fun mkdirs :: "path \<Rightarrow> string list \<Rightarrow> fs \<Rightarrow> error + fs" where
  "mkdirs done [] fs = Inr fs"
| "mkdirs done (c # cs) fs =
     (case fs (done @ [c]) of
        None \<Rightarrow> mkdirs (done @ [c]) cs (fs(done @ [c] \<mapsto> Dir))
      | Some Dir \<Rightarrow> mkdirs (done @ [c]) cs fs
      | Some (File t) \<Rightarrow> Inl (if cs = [] then FileExistsError else NotADirectoryError))"

definition mkdir_parents_exist_ok :: "path \<Rightarrow> fs \<Rightarrow> error + fs" where
  "mkdir_parents_exist_ok p fs = mkdirs [] p fs"

text \<open>
  \<open>shutil.rmtree(p, ignore_errors=True)\<close>: removes the directory \<open>p\<close> with everything
  below it; when \<open>p\<close> is missing or is not a directory the error is ignored and nothing
  changes.
\<close>

definition rmtree_ignore_errors :: "path \<Rightarrow> fs \<Rightarrow> fs" where
  "rmtree_ignore_errors p fs =
     (if fs p = Some Dir then (\<lambda>q. if prefix p q then None else fs q) else fs)"

text \<open>
  \<open>shutil.copytree(src, dst)\<close>: lists \<open>src\<close> first, then creates \<open>dst\<close> with its missing
  ancestors (\<open>os.makedirs\<close>, which raises \<open>FileExistsError\<close> when \<open>dst\<close> exists), then
  copies everything below \<open>src\<close>.  \<open>src\<close> and \<open>dst\<close> are taken not to lie inside each
  other.
\<close>

definition copytree :: "path \<Rightarrow> path \<Rightarrow> fs \<Rightarrow> error + fs" where
  "copytree src dst fs =
     (case stat fs src of
        None \<Rightarrow> Inl FileNotFoundError
      | Some (File t) \<Rightarrow> Inl NotADirectoryError
      | Some Dir \<Rightarrow>
         if stat fs dst \<noteq> None then Inl FileExistsError
         else if list_ex (is_file fs) (prefixes dst) then Inl NotADirectoryError
         else Inr (\<lambda>q. if prefix dst q then stat fs (src @ drop (length dst) q)
                       else if prefix q dst \<and> stat fs q = None then Some Dir
                       else fs q))"

section \<open>string.Template\<close>

text \<open>
  \<open>string.Template(text).substitute(mapping)\<close> of the Python standard library.  The
  pattern is scanned from left to right: \<open>$$\<close> is an escaped dollar, \<open>$name\<close> and
  \<open>${name}\<close> are placeholders (a name is an ASCII letter or underscore followed by ASCII
  letters, digits and underscores), and any other \<open>$\<close> is an invalid placeholder.
  \<open>substitute\<close> converts the matches in order: a placeholder is replaced by
  \<open>mapping[name]\<close>, which raises \<open>KeyError(name)\<close> when the name is missing; an invalid
  placeholder raises \<open>ValueError\<close>.
\<close>

type_synonym env = "string \<Rightarrow> string option"

definition idstart :: "char \<Rightarrow> bool" where
  "idstart c = (c \<in> set ''_abcdefghijklmnopqrstuvwxyzABCDEFGHIJKLMNOPQRSTUVWXYZ'')"

definition idchar :: "char \<Rightarrow> bool" where
  "idchar c = (idstart c \<or> c \<in> set ''0123456789'')"

datatype token = Lit char | Escaped | Named string | Braced string | Invalid

function tokenize :: "string \<Rightarrow> token list" where
  "tokenize [] = []"
| "tokenize (c # cs) =
     (if c \<noteq> CHR ''$'' then Lit c # tokenize cs
      else case cs of
        [] \<Rightarrow> [Invalid]
      | d # ds \<Rightarrow>
          if d = CHR ''$'' then Escaped # tokenize ds
          else if idstart d then Named (takeWhile idchar cs) # tokenize (dropWhile idchar cs)
          else if d = CHR ''{'' \<and> (case ds of [] \<Rightarrow> False | x # xs \<Rightarrow> idstart x)
                  \<and> (case dropWhile idchar ds of [] \<Rightarrow> False | y # ys \<Rightarrow> y = CHR ''}'')
               then Braced (takeWhile idchar ds) # tokenize (tl (dropWhile idchar ds))
          else Invalid # tokenize cs)"
  by pat_completeness auto
termination
proof (relation "measure length")
  show "wf (measure length)" by simp
next
  fix c d :: char and cs ds :: string
  have "length (dropWhile idchar cs) \<le> length cs"
    by (rule length_dropWhile_le)
  then show "(dropWhile idchar cs, c # cs) \<in> measure length"
    by simp
next
  fix c d :: char and cs ds :: string
  have "length (dropWhile idchar ds) \<le> length ds"
    by (rule length_dropWhile_le)
  then have "length (tl (dropWhile idchar ds)) \<le> length ds"
    by simp
  moreover assume "cs = d # ds"
  ultimately show "(tl (dropWhile idchar ds), c # cs) \<in> measure length"
    by simp
qed simp_all

fun convert :: "env \<Rightarrow> token list \<Rightarrow> error + string" where
  "convert env [] = Inr []"
| "convert env (Lit c # ts) =
     (case convert env ts of Inl e \<Rightarrow> Inl e | Inr s \<Rightarrow> Inr (c # s))"
| "convert env (Escaped # ts) =
     (case convert env ts of Inl e \<Rightarrow> Inl e | Inr s \<Rightarrow> Inr (CHR ''$'' # s))"
| "convert env (Named n # ts) =
     (case env n of
        None \<Rightarrow> Inl (KeyError n)
      | Some v \<Rightarrow> (case convert env ts of Inl e \<Rightarrow> Inl e | Inr s \<Rightarrow> Inr (v @ s)))"
| "convert env (Braced n # ts) =
     (case env n of
        None \<Rightarrow> Inl (KeyError n)
      | Some v \<Rightarrow> (case convert env ts of Inl e \<Rightarrow> Inl e | Inr s \<Rightarrow> Inr (v @ s)))"
| "convert env (Invalid # ts) = Inl ValueError"

definition substitute :: "env \<Rightarrow> string \<Rightarrow> error + string" where
  "substitute env text = convert env (tokenize text)"

text \<open>
  \<open>Template.get_identifiers\<close>: the names of the placeholders of a template, invalid
  placeholders ignored.  The program does not call it; it states which placeholders a
  template references.
\<close>

fun identifiers :: "token list \<Rightarrow> string list" where
  "identifiers [] = []"
| "identifiers (Named n # ts) = n # identifiers ts"
| "identifiers (Braced n # ts) = n # identifiers ts"
| "identifiers (t # ts) = identifiers ts"

definition get_identifiers :: "string \<Rightarrow> string list" where
  "get_identifiers text = remdups (identifiers (tokenize text))"

section \<open>copy_files_with_substitution\<close>

text \<open>
  A template directory is given by the tree found at its path: the package data under
  \<open>webapp_config/\<close> and \<open>nginx_config/\<close> is not part of the sources.  The children of a
  directory are in the order in which the directory is listed.  The template directory
  and the destination are taken not to overlap.
\<close>

datatype tree = TFile string | TDir "(string \<times> tree) list"

datatype entry = EDir | EFile string

fun kind :: "tree \<Rightarrow> entry" where
  "kind (TFile t) = EFile t"
| "kind (TDir cs) = EDir"

text \<open>
  \<open>template_dir.rglob("*")\<close> with paths relative to \<open>template_dir\<close>: the children of a
  directory, then the contents of its subdirectories.  A directory is yielded before
  anything below it.
\<close>

fun rglob :: "tree \<Rightarrow> (path \<times> entry) list" where
  "rglob (TFile t) = []"
| "rglob (TDir cs) =
     map (\<lambda>(n, t). ([n], kind t)) cs
     @ concat (map (\<lambda>(n, t). map (\<lambda>(p, e). (n # p, e)) (rglob t)) cs)"

text \<open>The body of the loop over the templates; an exception ends the loop.\<close>

fun render_entries :: "env \<Rightarrow> path \<Rightarrow> (path \<times> entry) list \<Rightarrow> fs \<Rightarrow> (error + unit) \<times> fs" where
  "render_entries env target_dir [] fs = (Inr (), fs)"
| "render_entries env target_dir ((rel, EDir) # es) fs =
     (case mkdir_parents_exist_ok (target_dir @ rel) fs of
        Inl e \<Rightarrow> (Inl e, fs)
      | Inr fs' \<Rightarrow> render_entries env target_dir es fs')"
| "render_entries env target_dir ((rel, EFile text) # es) fs =
     (case substitute env text of
        Inl e \<Rightarrow> (Inl e, fs)
      | Inr s \<Rightarrow>
         (case write_text (target_dir @ rel) s fs of
            Inl e \<Rightarrow> (Inl e, fs)
          | Inr fs' \<Rightarrow> render_entries env target_dir es fs'))"

definition copy_files_with_substitution :: "env \<Rightarrow> tree \<Rightarrow> path \<Rightarrow> fs \<Rightarrow> (error + unit) \<times> fs" where
  "copy_files_with_substitution env template_dir target_dir fs =
     (case mkdir_parents_exist_ok target_dir fs of
        Inl e \<Rightarrow> (Inl e, fs)
      | Inr fs' \<Rightarrow> render_entries env target_dir (rglob template_dir) fs')"

section \<open>configure_compose\<close>

text \<open>
  A YAML document as \<open>ruamel.yaml\<close> loads it.  A mapping and a sequence are objects of
  their own: the loaded document is a heap of such objects, an object being named by its
  index in the heap, and a value is a scalar or a reference to an object.  An alias \<open>*x\<close>
  loads as a reference to the object of its anchor \<open>&x\<close>, so one object can be the value
  of several keys.  A mapping keeps the order of its keys.  Parsing and serialisation
  belong to the library and are parameters.
\<close>

type_synonym ref = nat

datatype yaml =
    YNull
  | YStr string
  | YInt int
  | YBool bool
  | YRef ref

datatype obj =
    OList "yaml list"
  | OMap "(string \<times> yaml) list"

type_synonym heap = "obj list"

type_synonym document = "heap \<times> yaml"

record yaml_lib =
  yaml_load :: "string \<Rightarrow> document option"
  yaml_dump :: "document \<Rightarrow> string"

definition lookup :: "heap \<Rightarrow> ref \<Rightarrow> obj option" where
  "lookup h r = (if r < length h then Some (h ! r) else None)"

text \<open>A new object: it gets the next free index.\<close>

definition alloc :: "heap \<Rightarrow> obj \<Rightarrow> heap \<times> yaml" where
  "alloc h ob = (h @ [ob], YRef (length h))"

text \<open>Python's \<open>str\<close> of an \<open>int\<close>.\<close>

fun str_nat :: "nat \<Rightarrow> string" where
  "str_nat n =
     (if n < 10 then [''0123456789'' ! n]
      else str_nat (n div 10) @ [''0123456789'' ! (n mod 10)])"

declare str_nat.simps [simp del]

definition str_int :: "int \<Rightarrow> string" where
  "str_int i = (if i < 0 then CHR ''-'' # str_nat (nat (- i)) else str_nat (nat i))"

text \<open>\<open>d[k]\<close>: only a mapping can be subscripted by a string.\<close>

definition getitem :: "heap \<Rightarrow> yaml \<Rightarrow> string \<Rightarrow> error + yaml" where
  "getitem h d k =
     (case d of
        YRef r \<Rightarrow>
          (case lookup h r of
             Some (OMap kvs) \<Rightarrow> (case map_of kvs k of None \<Rightarrow> Inl (KeyError k) | Some v \<Rightarrow> Inr v)
           | _ \<Rightarrow> Inl TypeError)
      | _ \<Rightarrow> Inl TypeError)"

text \<open>\<open>d[k] = v\<close> on the items of a mapping: an existing key keeps its position.\<close>

fun setitem :: "(string \<times> yaml) list \<Rightarrow> string \<Rightarrow> yaml \<Rightarrow> (string \<times> yaml) list" where
  "setitem [] k v = [(k, v)]"
| "setitem ((k', v') # kvs) k v =
     (if k' = k then (k, v) # kvs else (k', v') # setitem kvs k v)"

text \<open>
  \<open>d.update({k: v})\<close>: only a mapping has the method.  The update happens in place: the
  object that \<open>d\<close> refers to is changed in the heap, for every key that refers to it.
\<close>

definition dict_update :: "heap \<Rightarrow> yaml \<Rightarrow> string \<Rightarrow> yaml \<Rightarrow> error + heap" where
  "dict_update h d k v =
     (case d of
        YRef r \<Rightarrow>
          (case lookup h r of
             Some (OMap kvs) \<Rightarrow> Inr (h[r := OMap (setitem kvs k v)])
           | _ \<Rightarrow> Inl AttributeError)
      | _ \<Rightarrow> Inl AttributeError)"

definition port_strings :: "(int \<times> int) list \<Rightarrow> string list" where
  "port_strings app_docker_ports =
     map (\<lambda>(host_port, docker_port). str_int host_port @ '':'' @ str_int docker_port) app_docker_ports"

definition configure_compose :: "yaml_lib \<Rightarrow> path \<Rightarrow> string \<Rightarrow> (int \<times> int) list \<Rightarrow> fs \<Rightarrow> (error + unit) \<times> fs" where
  "configure_compose Y dir app_name app_docker_ports fs =
     (let docker_compose_file = dir @ [''docker-compose.yaml''] in
      case read_text fs docker_compose_file of
        Inl e \<Rightarrow> (Inl e, fs)
      | Inr text \<Rightarrow>
      (case yaml_load Y text of
        None \<Rightarrow> (Inl YAMLError, fs)
      | Some (h, data) \<Rightarrow>
      (case getitem h data ''services'' of
        Inl e \<Rightarrow> (Inl e, fs)
      | Inr services \<Rightarrow>
      (case getitem h services app_name of
        Inl e \<Rightarrow> (Inl e, fs)
      | Inr service \<Rightarrow>
      (case alloc h (OList (map YStr (port_strings app_docker_ports))) of
        (h1, ports) \<Rightarrow>
      (case dict_update h1 service ''ports'' ports of
        Inl e \<Rightarrow> (Inl e, fs)
      | Inr h2 \<Rightarrow>
      (case write_text docker_compose_file (yaml_dump Y (h2, data)) fs of
        Inl e \<Rightarrow> (Inl e, fs)
      | Inr fs' \<Rightarrow> (Inr (), fs'))))))))"

text \<open>Whether a document has a service entry keyed by \<open>name\<close>.\<close>

definition has_service :: "document \<Rightarrow> string \<Rightarrow> bool" where
  "has_service doc name =
     (case getitem (fst doc) (snd doc) ''services'' of
        Inr (YRef r) \<Rightarrow>
          (case lookup (fst doc) r of
             Some (OMap services) \<Rightarrow> map_of services name \<noteq> None
           | _ \<Rightarrow> False)
      | _ \<Rightarrow> False)"

section \<open>The target descriptor\<close>

text \<open>
  The fields of \<open>Webapp\<close>.  The directories \<open>target_dir\<close>, \<open>target_src_dir\<close> and
  \<open>target_build_dir\<close> are computed by the base class \<open>Target\<close>, which is not part of the
  sources, so they are fields here.  \<open>bind_ports\<close> is a Python dict: the list of its
  items in insertion order.
\<close>

record webapp =
  target_name :: string
  target_dir :: path
  target_src_dir :: path
  target_build_dir :: path
  domain_name :: string
  application_port :: int
  email :: string
  bind_ports :: "(int \<times> int) list"
  deployment_dir :: path

definition app_build_dir :: "webapp \<Rightarrow> path" where
  "app_build_dir w = target_build_dir w @ [''app'']"

definition deployed_docker_compose_yaml :: "webapp \<Rightarrow> path" where
  "deployed_docker_compose_yaml w = deployment_dir w @ [''docker-compose.yaml'']"

section \<open>The remote session\<close>

text \<open>
  Modelled from the spec: \<open>devious.wrappers.ssh\<close> is missing from the sources.  The spec
  gives the Remote Session collaborator \<open>session.run(commandArgsList)\<close>, which returns a
  success/failure signal, and \<open>session.upload(localDir, remoteDir)\<close>, and calls the
  result of a step "non-zero/failing".  A call either returns the exit status of the
  remote command (0 for success) or raises.  The remote host is a parameter: \<open>s log a\<close>
  is its reply to the action \<open>a\<close> after the actions \<open>log\<close>.  The state that \<open>deploy\<close>
  threads is the log of the actions issued so far.
\<close>

datatype action = Run command | Upload path path

datatype reply = Returns int | Raises error

type_synonym session = "action list \<Rightarrow> action \<Rightarrow> reply"

type_synonym 'a remote = "action list \<Rightarrow> (error + 'a) \<times> action list"

definition perform :: "session \<Rightarrow> action \<Rightarrow> int remote" where
  "perform s a log =
     (case s log a of
        Returns rc \<Rightarrow> (Inr rc, log @ [a])
      | Raises e \<Rightarrow> (Inl e, log @ [a]))"

definition session_run :: "session \<Rightarrow> command \<Rightarrow> int remote" where
  "session_run s c = perform s (Run c)"

definition session_upload :: "session \<Rightarrow> path \<Rightarrow> path \<Rightarrow> int remote" where
  "session_upload s src dst = perform s (Upload src dst)"

text \<open>Sequencing of statements: an exception in the first ends the block.\<close>

definition then_do :: "'a remote \<Rightarrow> ('a \<Rightarrow> 'b remote) \<Rightarrow> 'b remote" where
  "then_do m f log =
     (case m log of
        (Inl e, log') \<Rightarrow> (Inl e, log')
      | (Inr v, log') \<Rightarrow> f v log')"

definition pass :: "unit remote" where
  "pass log = (Inr (), log)"

text \<open>Python's truth value of an \<open>int\<close>, as \<open>if session.run(...)\<close> takes it.\<close>

definition truthy :: "int \<Rightarrow> bool" where
  "truthy rc = (rc \<noteq> 0)"

section \<open>Webapp.deploy\<close>

definition probe :: "string \<Rightarrow> command" where
  "probe tool = [''command'', ''-v'', tool, ''>/dev/null 2>&1'']"

definition copy_nginx_config :: "webapp \<Rightarrow> command" where
  "copy_nginx_config w =
     [''cp'', ''-r'', as_posix (deployment_dir w @ [''nginx_config'']) @ ''/.'', ''/etc/nginx/'']"

definition deploy :: "session \<Rightarrow> wrappers \<Rightarrow> webapp \<Rightarrow> unit remote" where
  "deploy s W w =
     then_do (session_run s (probe ''docker'')) (\<lambda>docker_rc.
     then_do (if truthy docker_rc
              then then_do (session_run s (install_docker W)) (\<lambda>_. pass)
              else pass) (\<lambda>_.
     then_do (session_run s (probe ''python'')) (\<lambda>python_rc.
     then_do (if truthy python_rc
              then then_do (session_run s (apt_get_install W [''python-is-python3''])) (\<lambda>_. pass)
              else pass) (\<lambda>_.
     then_do (session_run s (probe ''nginx'')) (\<lambda>nginx_rc.
     then_do (if truthy nginx_rc
              then then_do (session_run s (apt_get_install W [''nginx''])) (\<lambda>_.
                   then_do (session_run s [''rm'', ''/etc/nginx/sites-available/default'']) (\<lambda>_.
                   then_do (session_run s [''rm'', ''/etc/nginx/sites-enabled/default'']) (\<lambda>_. pass)))
              else pass) (\<lambda>_.
     then_do (session_upload s (target_build_dir w) (deployment_dir w)) (\<lambda>_.
     then_do (session_run s (copy_nginx_config w)) (\<lambda>_.
     then_do (session_run s (docker_compose_build W (deployed_docker_compose_yaml w))) (\<lambda>_.
     then_do (session_run s (set_up_ssl_cert W (domain_name w) (email w))) (\<lambda>_.
     then_do (session_run s [''service'', ''nginx'', ''reload'']) (\<lambda>_. pass)))))))))))"

text \<open>
  The five steps that follow the conditional installs, and the actions of the
  conditional installs, as lists of actions (used to state the order of the steps).
\<close>

definition rollout :: "wrappers \<Rightarrow> webapp \<Rightarrow> action list" where
  "rollout W w =
     [Upload (target_build_dir w) (deployment_dir w),
      Run (copy_nginx_config w),
      Run (docker_compose_build W (deployed_docker_compose_yaml w)),
      Run (set_up_ssl_cert W (domain_name w) (email w)),
      Run [''service'', ''nginx'', ''reload'']]"

definition docker_install_actions :: "wrappers \<Rightarrow> action list" where
  "docker_install_actions W = [Run (install_docker W)]"

definition python_install_actions :: "wrappers \<Rightarrow> action list" where
  "python_install_actions W = [Run (apt_get_install W [''python-is-python3''])]"

definition nginx_install_actions :: "wrappers \<Rightarrow> action list" where
  "nginx_install_actions W =
     [Run (apt_get_install W [''nginx'']),
      Run [''rm'', ''/etc/nginx/sites-available/default''],
      Run [''rm'', ''/etc/nginx/sites-enabled/default'']]"

text \<open>
  \<open>answered s log as e\<close>: issued after \<open>log\<close>, every action of \<open>as\<close> got a reply; with
  \<open>e = None\<close> all of them returned, with \<open>e = Some x\<close> the last one raised \<open>x\<close> and
  all before it returned.
\<close>

fun answered :: "session \<Rightarrow> action list \<Rightarrow> action list \<Rightarrow> error option \<Rightarrow> bool" where
  "answered s log [] e = (e = None)"
| "answered s log (a # as) e =
     (case s log a of
        Returns rc \<Rightarrow> answered s (log @ [a]) as e
      | Raises x \<Rightarrow> as = [] \<and> e = Some x)"

definition raised :: "(error + 'a) \<Rightarrow> error option" where
  "raised r = (case r of Inl e \<Rightarrow> Some e | Inr v \<Rightarrow> None)"

text \<open>Whether a reply is a returned non-zero status.\<close>

definition failing :: "reply \<Rightarrow> bool" where
  "failing r = (case r of Returns rc \<Rightarrow> rc \<noteq> 0 | Raises e \<Rightarrow> False)"

text \<open>Sessions used as concrete inputs.\<close>

definition demo_webapp :: webapp where
  "demo_webapp =
     \<lparr> target_name = ''shop'',
       target_dir = [''repo'', ''apps'', ''shop''],
       target_src_dir = [''repo'', ''apps'', ''shop'', ''src'', ''shop''],
       target_build_dir = [''repo'', ''build'', ''shop''],
       domain_name = ''example.org'',
       application_port = 8000,
       email = ''ops@example.org'',
       bind_ports = [(8080, 80), (8443, 443)],
       deployment_dir = [''srv'', ''shop''] \<rparr>"

definition all_present :: session where
  "all_present log a = Returns 0"

definition all_absent :: session where
  "all_absent log a =
     (if a \<in> {Run (probe ''docker''), Run (probe ''python''), Run (probe ''nginx'')}
      then Returns 1 else Returns 0)"

definition cp_fails :: session where
  "cp_fails log a = (if a = Run (copy_nginx_config demo_webapp) then Returns 1 else Returns 0)"

definition probe_raises :: session where
  "probe_raises log a = Raises (RemoteError ''connection lost'')"

text \<open>
  Proof devices: \<open>issue\<close> performs a list of actions in order, discarding the returned
  statuses; \<open>ensure\<close> is one probe followed by its conditional installs.  \<open>deploy\<close> is
  shown to be three \<open>ensure\<close> blocks followed by \<open>issue\<close> of the rollout.
\<close>

fun issue :: "session \<Rightarrow> action list \<Rightarrow> unit remote" where
  "issue s [] = pass"
| "issue s (a # as) = then_do (perform s a) (\<lambda>_. issue s as)"

definition ensure :: "session \<Rightarrow> command \<Rightarrow> action list \<Rightarrow> unit remote" where
  "ensure s p installs =
     then_do (session_run s p) (\<lambda>rc. if truthy rc then issue s installs else pass)"

definition provisioning :: "wrappers \<Rightarrow> action list" where
  "provisioning W =
     Run (probe ''docker'') # docker_install_actions W @
     Run (probe ''python'') # python_install_actions W @
     Run (probe ''nginx'') # nginx_install_actions W"

definition rollout_prefix :: "wrappers \<Rightarrow> webapp \<Rightarrow> action list \<Rightarrow> (error + unit) \<Rightarrow> bool" where
  "rollout_prefix W w post r =
     (\<exists>k \<le> length (rollout W w). post = take k (rollout W w) \<and> (r = Inr () \<longrightarrow> k = length (rollout W w)))"

definition demo_compose :: document where
  "demo_compose =
     ([OMap [(''services'', YRef 1)],
       OMap [(''shop'', YRef 2)],
       OMap [(''build'', YStr ''.''), (''ports'', YNull)]], YRef 0)"

text \<open>The document in which the services \<open>a\<close> and \<open>shop\<close> are one mapping.\<close>

definition alias_compose :: document where
  "alias_compose =
     ([OMap [(''services'', YRef 1)],
       OMap [(''a'', YRef 2), (''shop'', YRef 2)],
       OMap [(''build'', YStr ''.'')]], YRef 0)"

definition demo_yaml :: yaml_lib where
  "demo_yaml =
     \<lparr> yaml_load = (\<lambda>t.
         if t = ''services: {shop: {build: ., ports: null}}'' then Some demo_compose
         else if t = ''services: {}'' then Some ([OMap [(''services'', YRef 1)], OMap []], YRef 0)
         else if t = ''services: {shop: null}''
           then Some ([OMap [(''services'', YRef 1)], OMap [(''shop'', YNull)]], YRef 0)
         else if t = ''services: {a: &x {build: .}, shop: *x}'' then Some alias_compose
         else None),
       yaml_dump = (\<lambda>d.
         if d = ([OMap [(''services'', YRef 1)],
                  OMap [(''shop'', YRef 2)],
                  OMap [(''build'', YStr ''.''), (''ports'', YRef 3)],
                  OList [YStr ''8080:80'', YStr ''8443:443'']], YRef 0)
           then ''services: {shop: {build: ., ports: [8080:80, 8443:443]}}''
         else if d = ([OMap [(''services'', YRef 1)],
                  OMap [(''a'', YRef 2), (''shop'', YRef 2)],
                  OMap [(''build'', YStr ''.''), (''ports'', YRef 3)],
                  OList [YStr ''8080:80'', YStr ''8443:443'']], YRef 0)
           then ''services: {a: &x {build: ., ports: [8080:80, 8443:443]}, shop: *x}''
         else ''?'') \<rparr>"

definition compose_fs :: "string \<Rightarrow> fs" where
  "compose_fs text = [[''b''] \<mapsto> Dir, [''b'', ''docker-compose.yaml''] \<mapsto> File text]"

text \<open>
  Well-formed template trees (the names in a directory are distinct), the property of a
  listing that the proofs use, \<open>Template.is_valid\<close>, and concrete inputs.
\<close>

fun wf_tree :: "tree \<Rightarrow> bool" where
  "wf_tree (TFile t) = True"
| "wf_tree (TDir cs) = (distinct (map fst cs) \<and> (\<forall>(n, c) \<in> set cs. wf_tree c))"

definition leaf_files :: "(path \<times> entry) list \<Rightarrow> bool" where
  "leaf_files es =
     (distinct (map fst es) \<and> (\<forall>(p, e) \<in> set es. p \<noteq> []) \<and>
      (\<forall>p x q e'. (p, EFile x) \<in> set es \<and> (q, e') \<in> set es \<and> prefix p q \<longrightarrow> q = p))"

definition is_valid :: "string \<Rightarrow> bool" where
  "is_valid tmpl = (Invalid \<notin> set (tokenize tmpl))"

definition no_env :: env where
  "no_env = Map.empty"

definition name_env :: env where
  "name_env = [''NAME'' \<mapsto> ''shop'']"

definition demo_templates :: tree where
  "demo_templates =
     TDir [(''a.conf'', TFile ''name=${NAME}''),
           (''sub'', TDir [(''b.conf'', TFile ''port=$PORT'')])]"

definition empty_fs :: fs where
  "empty_fs = Map.empty"

definition demo_partial :: fs where
  "demo_partial =
     empty_fs([''out''] \<mapsto> Dir, [''out'', ''a.conf''] \<mapsto> File ''name=shop'', [''out'', ''sub''] \<mapsto> Dir)"

text \<open>
  Proof devices for a run of the loop in which no file-system call fails: the listing
  names the parent of every entry before the entry (\<open>ok_from\<close>), \<open>plan\<close> is the outcome of
  the loop with the nodes it writes, and \<open>place\<close> writes them.  A destination is fresh when
  nothing exists at or below it and no ancestor is a regular file; an environment
  \<open>renders\<close> a template tree when every template is valid and has all its placeholders
  in the environment.
\<close>

fun ok_from :: "path set \<Rightarrow> (path \<times> entry) list \<Rightarrow> bool" where
  "ok_from D [] = True"
| "ok_from D ((r, e) # es) =
     (r \<noteq> [] \<and> butlast r \<in> D \<and> r \<notin> fst ` set es
      \<and> ok_from (if e = EDir then insert r D else D) es)"

fun plan :: "env \<Rightarrow> (path \<times> entry) list \<Rightarrow> (error + unit) \<times> (path \<times> node) list" where
  "plan env [] = (Inr (), [])"
| "plan env ((r, EDir) # es) = (case plan env es of (res, ws) \<Rightarrow> (res, (r, Dir) # ws))"
| "plan env ((r, EFile t) # es) =
     (case substitute env t of
        Inl e \<Rightarrow> (Inl e, [])
      | Inr s \<Rightarrow> (case plan env es of (res, ws) \<Rightarrow> (res, (r, File s) # ws)))"

fun place :: "path \<Rightarrow> (path \<times> node) list \<Rightarrow> fs \<Rightarrow> fs" where
  "place dst [] fs = fs"
| "place dst ((r, n) # ws) fs = place dst ws (fs(dst @ r \<mapsto> n))"

definition fresh :: "path \<Rightarrow> fs \<Rightarrow> bool" where
  "fresh dst fs =
     (dst \<noteq> [] \<and> (\<forall>q. prefix dst q \<longrightarrow> fs q = None) \<and> (\<forall>q. prefix q dst \<longrightarrow> \<not> is_file fs q))"

definition renders :: "env \<Rightarrow> tree \<Rightarrow> bool" where
  "renders env t =
     (\<forall>(r, e) \<in> set (rglob t).
        case e of EDir \<Rightarrow> True
        | EFile x \<Rightarrow> is_valid x \<and> (\<forall>k \<in> set (get_identifiers x). env k \<noteq> None))"

definition both_env :: env where
  "both_env = [''NAME'' \<mapsto> ''shop'', ''PORT'' \<mapsto> ''8000'']"

definition other_fs :: fs where
  "other_fs = [[''tmp''] \<mapsto> Dir, [''tmp'', ''old''] \<mapsto> File ''x'']"

section \<open>Webapp.build\<close>

text \<open>
  Modelled from the spec: \<open>utils.temp_env\<close> is missing from the sources.  The spec
  describes the template environment as a mapping from variable name to string value,
  derived from the target descriptor, with an option to expose all keys in upper-case
  form, and scoped to the duration of the template rendering.  Inside the \<open>with\<close> block
  the process environment is the environment found plus the given variables, their names
  in upper case (\<open>all_caps=True\<close>); the names given here are ASCII identifiers.
\<close>

definition upper_char :: "char \<Rightarrow> char" where
  "upper_char c =
     (case map_of (zip ''abcdefghijklmnopqrstuvwxyz'' ''ABCDEFGHIJKLMNOPQRSTUVWXYZ'') c of
        Some u \<Rightarrow> u
      | None \<Rightarrow> c)"

definition temp_env :: "env \<Rightarrow> (string \<times> string) list \<Rightarrow> env" where
  "temp_env environ kwargs = environ ++ map_of (map (\<lambda>(k, v). (map upper_char k, v)) kwargs)"

text \<open>\<open>sep.join(xs)\<close>.\<close>

fun join :: "string \<Rightarrow> string list \<Rightarrow> string" where
  "join sep [] = []"
| "join sep [x] = x"
| "join sep (x # y # ys) = x @ sep @ join sep (y # ys)"

text \<open>
  What the module finds where it is installed: the process environment, the package data
  under \<open>webapp_config/\<close> and \<open>nginx_config/\<close>, which are not part of the sources, and the
  YAML library.
\<close>

record installation =
  os_environ :: env
  WEBAPP_CONFIG_DIR :: tree
  NGINX_CONFIG_DIR :: tree
  yaml_library :: yaml_lib

text \<open>The variables that \<open>build\<close> hands to \<open>temp_env\<close>.\<close>

definition build_env :: "webapp \<Rightarrow> env \<Rightarrow> env" where
  "build_env w environ =
     temp_env environ
       [(''target_name'', target_name w),
        (''exposed_ports'', join '' '' (map (\<lambda>(host_port, docker_port). str_int docker_port) (bind_ports w))),
        (''application_port'', str_int (application_port w)),
        (''deployment_dir'', as_posix (deployment_dir w)),
        (''domain_name'', domain_name w)]"

text \<open>
  \<open>Webapp.build\<close>.  \<open>target_src_dir.parent\<close> is the path without its last component.  The
  \<open>FileExistsError\<close> of \<open>shutil.copytree\<close> is caught, logged, and turned into \<open>sys.exit(1)\<close>;
  every other exception leaves \<open>build\<close> as it is.  The method works on the local file
  system only: it takes no remote session and calls none.
\<close>

definition build :: "installation \<Rightarrow> webapp \<Rightarrow> bool \<Rightarrow> fs \<Rightarrow> (error + unit) \<times> fs" where
  "build I w clean fs =
     (let fs1 = (if clean then rmtree_ignore_errors (target_build_dir w) fs else fs) in
      case copytree (butlast (target_src_dir w)) (app_build_dir w) fs1 of
        Inl e \<Rightarrow> (Inl (if e = FileExistsError then SystemExit 1 else e), fs1)
      | Inr fs2 \<Rightarrow>
          (let env = build_env w (os_environ I) in
           case copy_files_with_substitution env (WEBAPP_CONFIG_DIR I) (target_build_dir w) fs2 of
             (Inl e, fs3) \<Rightarrow> (Inl e, fs3)
           | (Inr u, fs3) \<Rightarrow>
               (case copy_files_with_substitution env (NGINX_CONFIG_DIR I)
                       (target_build_dir w @ [''nginx_config'']) fs3 of
                  (Inl e, fs4) \<Rightarrow> (Inl e, fs4)
                | (Inr u, fs4) \<Rightarrow>
                    configure_compose (yaml_library I) (target_build_dir w) (target_name w)
                      (bind_ports w) fs4)))"

text \<open>
  Notions for the statements about \<open>build\<close>.  \<open>node_of env e\<close> is what a template entry
  becomes on disk and \<open>rendered env e n\<close> tells that the node \<open>n\<close> found at a destination is
  the rendering of the entry \<open>e\<close>.  \<open>copied w fs\<close> is the file system after the source tree
  was copied to the app subdirectory, \<open>compose_doc\<close> the compose document after the ports
  were set, and \<open>built I w doc fs\<close> the file system after all steps of a build.  A template
  tree is \<open>top_free\<close> when none of its top-level names is \<open>app\<close> or \<open>nginx_config\<close>, and
  \<open>empty_below p fs\<close> tells that nothing exists below the path \<open>p\<close> and that no regular file
  is in the way of \<open>p\<close>.
\<close>

fun node_of :: "env \<Rightarrow> entry \<Rightarrow> node" where
  "node_of env EDir = Dir"
| "node_of env (EFile t) = (case substitute env t of Inr s \<Rightarrow> File s | Inl e \<Rightarrow> File [])"


definition nginx_build_dir :: "webapp \<Rightarrow> path" where
  "nginx_build_dir w = target_build_dir w @ [''nginx_config'']"

definition copied :: "webapp \<Rightarrow> fs \<Rightarrow> fs" where
  "copied w fs =
     (\<lambda>q. if prefix (app_build_dir w) q
          then stat fs (butlast (target_src_dir w) @ drop (length (app_build_dir w)) q)
          else if prefix q (app_build_dir w) \<and> stat fs q = None then Some Dir
          else fs q)"

definition nodes :: "env \<Rightarrow> tree \<Rightarrow> (path \<times> node) list" where
  "nodes env t = map (\<lambda>(r, e). (r, node_of env e)) (rglob t)"

definition compose_doc :: "heap \<Rightarrow> yaml \<Rightarrow> ref \<Rightarrow> (string \<times> yaml) list \<Rightarrow> (int \<times> int) list \<Rightarrow> document" where
  "compose_doc h data r service ports =
     ((h @ [OList (map YStr (port_strings ports))])
         [r := OMap (setitem service ''ports'' (YRef (length h)))], data)"

definition built :: "installation \<Rightarrow> webapp \<Rightarrow> document \<Rightarrow> fs \<Rightarrow> fs" where
  "built I w doc fs =
     (place (nginx_build_dir w) (nodes (build_env w (os_environ I)) (NGINX_CONFIG_DIR I))
        ((place (target_build_dir w) (nodes (build_env w (os_environ I)) (WEBAPP_CONFIG_DIR I))
            (copied w fs))
         (nginx_build_dir w \<mapsto> Dir)))
     (target_build_dir w @ [''docker-compose.yaml''] \<mapsto> File (yaml_dump (yaml_library I) doc))"

definition top_free :: "tree \<Rightarrow> bool" where
  "top_free t = (\<forall>(r, e) \<in> set (rglob t). hd r \<noteq> ''app'' \<and> hd r \<noteq> ''nginx_config'')"

definition empty_below :: "path \<Rightarrow> fs \<Rightarrow> bool" where
  "empty_below p fs = (p \<noteq> [] \<and> (\<forall>q. strict_prefix p q \<longrightarrow> fs q = None)
      \<and> (\<forall>q. prefix q p \<longrightarrow> \<not> is_file fs q))"

text \<open>
  An installation with one webapp template and one proxy template, and three states of
  the repository of the target \<open>shop\<close>: with a build directory that holds a stale file,
  with an empty build directory, and with a build directory that holds the app
  subdirectory.
\<close>

definition demo_install :: installation where
  "demo_install =
     \<lparr> os_environ = [''HOME'' \<mapsto> ''/root''],
       WEBAPP_CONFIG_DIR =
         TDir [(''docker-compose.yaml'', TFile ''services: {${TARGET_NAME}: {build: ., ports: null}}'')],
       NGINX_CONFIG_DIR = TDir [(''site.conf'', TFile ''server_name ${DOMAIN_NAME};'')],
       yaml_library = demo_yaml \<rparr>"


definition scaffold_fs :: fs where
  "scaffold_fs =
     [[''repo''] \<mapsto> Dir,
      [''repo'', ''apps''] \<mapsto> Dir,
      [''repo'', ''apps'', ''shop''] \<mapsto> Dir,
      [''repo'', ''apps'', ''shop'', ''src''] \<mapsto> Dir,
      [''repo'', ''apps'', ''shop'', ''src'', ''shop''] \<mapsto> Dir,
      [''repo'', ''apps'', ''shop'', ''src'', ''shop'', ''main.py''] \<mapsto> File ''app = 1'',
      [''repo'', ''build''] \<mapsto> Dir,
      [''repo'', ''build'', ''shop''] \<mapsto> Dir]"

definition collide_fs :: fs where
  "collide_fs = scaffold_fs([''repo'', ''build'', ''shop'', ''app''] \<mapsto> Dir)"

section \<open>Properties of the certificate setup procedure\<close>

lemma sh_exec_plain:
  "\<forall>t \<in> set xs. \<not> is_operator t \<Longrightarrow> sh_exec st done cur skip (xs @ ys) = sh_exec st done (cur @ xs) skip ys"
  by (induction xs arbitrary: cur) (auto simp: is_operator_def)

lemma sh_exec_seq:
  "sh_exec st done cur skip (xs @ '';'' # ys) = sh_exec st (sh_exec st done cur skip xs) [] False ys"
  by (induction xs arbitrary: "done" cur skip) simp_all

lemma sh_exec_prefix: "prefix done (sh_exec st done cur skip xs)"
proof (induction xs arbitrary: "done" cur skip)
  case Nil
  then show ?case by simp
next
  case (Cons t ts)
  have a: "prefix done (sh_exec st (done @ [cur]) [] b ts)" for b
    using Cons.IH [of "done @ [cur]" "[]" b] by (rule append_prefixD)
  show ?case using a Cons.IH by simp
qed

lemma sh_exec_first:
  "cur @ first_simple xs \<in> set (sh_exec st done cur False xs)"
proof (induction xs arbitrary: "done" cur)
  case Nil
  then show ?case by (simp add: first_simple_def)
next
  case (Cons t ts)
  have here: "cur \<in> set (sh_exec st (done @ [cur]) [] b ts)" for b
    using sh_exec_prefix [of "done @ [cur]" st "[]" b ts] by (auto simp: prefix_def)
  show ?case
  proof (cases "is_operator t")
    case True
    then have "first_simple (t # ts) = []" by (simp add: first_simple_def)
    with True here show ?thesis by (auto simp: is_operator_def)
  next
    case False
    then have "first_simple (t # ts) = t # first_simple ts" by (simp add: first_simple_def)
    with False Cons.IH [of "cur @ [t]" "done"] show ?thesis by (simp add: is_operator_def)
  qed
qed

lemma sh_chain:
  "cs \<noteq> [] \<Longrightarrow> sh st done (chain_commands cs '';'') = foldl (sh st) done cs"
proof (induction cs arbitrary: "done")
  case Nil
  then show ?case by simp
next
  case (Cons c cs)
  show ?case
  proof (cases cs)
    case Nil
    then show ?thesis by simp
  next
    case (Cons v va)
    then have ne: "cs \<noteq> []" by simp
    have "sh st done (chain_commands (c # cs) '';'')
            = sh st (sh st done c) (chain_commands cs '';'')"
      unfolding Cons by (simp add: sh_def sh_exec_seq)
    also have "\<dots> = foldl (sh st) (sh st done c) cs" using ne by (rule Cons.IH)
    finally show ?thesis by simp
  qed
qed

lemma foldl_sh_prefix: "prefix done (foldl (sh st) done cs)"
proof (induction cs arbitrary: "done")
  case Nil
  then show ?case by simp
next
  case (Cons c cs)
  have "prefix done (sh st done c)" unfolding sh_def by (rule sh_exec_prefix)
  also have "prefix (sh st done c) (foldl (sh st) (sh st done c) cs)" by (rule Cons.IH)
  finally show ?case by simp
qed

lemma foldl_sh_first: "c \<in> set cs \<Longrightarrow> first_simple c \<in> set (foldl (sh st) done cs)"
proof (induction cs arbitrary: "done")
  case Nil
  then show ?case by simp
next
  case (Cons a cs)
  show ?case
  proof (cases "c = a")
    case True
    have "first_simple a \<in> set (sh st done a)"
      unfolding sh_def using sh_exec_first [of "[]" a st "done"] by simp
    moreover have "prefix (sh st done a) (foldl (sh st) (sh st done a) cs)" by (rule foldl_sh_prefix)
    ultimately have "first_simple a \<in> set (foldl (sh st) (sh st done a) cs)"
      by (auto simp: prefix_def)
    with True show ?thesis by simp
  next
    case False
    with Cons.prems have "c \<in> set cs" by simp
    then have "first_simple c \<in> set (foldl (sh st) (sh st done a) cs)" by (rule Cons.IH)
    then show ?thesis by simp
  qed
qed

lemma sh_plain: "\<forall>t \<in> set c. \<not> is_operator t \<Longrightarrow> sh st done c = done @ [c]"
  using sh_exec_plain [of c st "done" "[]" False "[]"] by (simp add: sh_def)

lemma foldl_sh_plain:
  "\<forall>c \<in> set cs. \<forall>t \<in> set c. \<not> is_operator t \<Longrightarrow> foldl (sh st) done cs = done @ cs"
  by (induction cs arbitrary: "done") (simp_all add: sh_plain)

text \<open>
  C8.  The certificate setup procedure returns one composite command: the install of
  the prerequisite packages, the creation of the isolated environment, the upgrade of its
  installer, the install of the issuance tool and its proxy plugin, the symlink of the
  executable, a proxy stop, the non-interactive, terms-accepting certificate request for
  the given domain and email, and a second proxy stop, in this order and joined by \<open>;\<close>.
  For every package installer, also one whose command chains its own steps with \<open>&&\<close>, and
  whatever the exit statuses are, the shell runs the composite as the eight commands one
  after the other, each of them after all the commands before it have run; so every one
  of the eight is started, its first simple command being executed.  When no command has
  an operator of its own, the commands executed are exactly the eight.
\<close>

theorem set_up_ssl_cert_runs_all:
  "set_up_ssl_cert W dn em =
           apt_get_install W [''python3'', ''python3-venv'', ''libaugeas0''] @
           ['';'', ''python3'', ''-m'', ''venv'', ''/opt/certbot/'',
            '';'', ''/opt/certbot/bin/pip'', ''install'', ''--upgrade'', ''pip'',
            '';'', ''/opt/certbot/bin/pip'', ''install'', ''certbot'', ''certbot-nginx'',
            '';'', ''ln'', ''-s'', ''/opt/certbot/bin/certbot'', ''/usr/bin/certbot'',
            '';'', ''pkill'', ''nginx'',
            '';'', ''certbot'', ''--nginx'', ''--agree-tos'', ''--test-cert'', ''--non-interactive'',
                   ''--email'', em, ''-d'', dn,
            '';'', ''pkill'', ''nginx'']
   \<and> sh st [] (set_up_ssl_cert W dn em) = foldl (sh st) [] (ssl_commands W dn em)
   \<and> length (ssl_commands W dn em) = 8
   \<and> (\<forall>c \<in> set (ssl_commands W dn em). first_simple c \<in> set (sh st [] (set_up_ssl_cert W dn em)))
   \<and> ((\<forall>c \<in> set (ssl_commands W dn em). \<forall>t \<in> set c. \<not> is_operator t)
        \<longrightarrow> sh st [] (set_up_ssl_cert W dn em) = ssl_commands W dn em)"
proof -
  have shape: "set_up_ssl_cert W dn em =
           apt_get_install W [''python3'', ''python3-venv'', ''libaugeas0''] @
           ['';'', ''python3'', ''-m'', ''venv'', ''/opt/certbot/'',
            '';'', ''/opt/certbot/bin/pip'', ''install'', ''--upgrade'', ''pip'',
            '';'', ''/opt/certbot/bin/pip'', ''install'', ''certbot'', ''certbot-nginx'',
            '';'', ''ln'', ''-s'', ''/opt/certbot/bin/certbot'', ''/usr/bin/certbot'',
            '';'', ''pkill'', ''nginx'',
            '';'', ''certbot'', ''--nginx'', ''--agree-tos'', ''--test-cert'', ''--non-interactive'',
                   ''--email'', em, ''-d'', dn,
            '';'', ''pkill'', ''nginx'']"
    by (simp add: set_up_ssl_cert_def ssl_commands_def certbot_cmd_def)
  have len: "length (ssl_commands W dn em) = 8" by (simp add: ssl_commands_def)
  then have ne: "ssl_commands W dn em \<noteq> []" by auto
  have run: "sh st [] (set_up_ssl_cert W dn em) = foldl (sh st) [] (ssl_commands W dn em)"
    unfolding set_up_ssl_cert_def using ne by (rule sh_chain)
  have first: "\<forall>c \<in> set (ssl_commands W dn em). first_simple c \<in> set (sh st [] (set_up_ssl_cert W dn em))"
    unfolding run using foldl_sh_first by blast
  have plain: "(\<forall>c \<in> set (ssl_commands W dn em). \<forall>t \<in> set c. \<not> is_operator t)
        \<longrightarrow> sh st [] (set_up_ssl_cert W dn em) = ssl_commands W dn em"
    unfolding run using foldl_sh_plain [of "ssl_commands W dn em" st "[]"] by simp
  from shape run len first plain show ?thesis by (intro conjI)
qed

theorem set_up_ssl_cert_runs_all_witness:
  "sh (\<lambda>done c. 1) [] (set_up_ssl_cert demo_wrappers ''example.org'' ''ops@example.org'')
     = ssl_commands demo_wrappers ''example.org'' ''ops@example.org''
   \<and> sh (\<lambda>done c. 1) [] (set_up_ssl_cert apt_update_wrappers ''example.org'' ''ops@example.org'')
     = [[''apt-get'', ''update''],
        [''python3'', ''-m'', ''venv'', ''/opt/certbot/''],
        [''/opt/certbot/bin/pip'', ''install'', ''--upgrade'', ''pip''],
        [''/opt/certbot/bin/pip'', ''install'', ''certbot'', ''certbot-nginx''],
        [''ln'', ''-s'', ''/opt/certbot/bin/certbot'', ''/usr/bin/certbot''],
        [''pkill'', ''nginx''],
        [''certbot'', ''--nginx'', ''--agree-tos'', ''--test-cert'', ''--non-interactive'',
         ''--email'', ''ops@example.org'', ''-d'', ''example.org''],
        [''pkill'', ''nginx'']]
   \<and> [''pkill'', ''nginx'']
        \<in> set (sh (\<lambda>done c. 1) [] (set_up_ssl_cert apt_update_wrappers ''example.org'' ''ops@example.org''))"
proof -
  let ?st = "\<lambda>(done :: command list) (c :: command). 1 :: int"
  note plain = set_up_ssl_cert_runs_all [of demo_wrappers "''example.org''" "''ops@example.org''" ?st]
  note chained = set_up_ssl_cert_runs_all [of apt_update_wrappers "''example.org''" "''ops@example.org''" ?st]
  have ops: "\<forall>c \<in> set (ssl_commands demo_wrappers ''example.org'' ''ops@example.org''). \<forall>t \<in> set c. \<not> is_operator t"
    by (simp add: ssl_commands_def certbot_cmd_def demo_wrappers_def is_operator_def)
  from plain ops have 1: "sh ?st [] (set_up_ssl_cert demo_wrappers ''example.org'' ''ops@example.org'')
     = ssl_commands demo_wrappers ''example.org'' ''ops@example.org''"
    by blast
  from chained have "sh ?st [] (set_up_ssl_cert apt_update_wrappers ''example.org'' ''ops@example.org'')
     = foldl (sh ?st) [] (ssl_commands apt_update_wrappers ''example.org'' ''ops@example.org'')"
    by blast
  also have "\<dots> = [[''apt-get'', ''update''],
        [''python3'', ''-m'', ''venv'', ''/opt/certbot/''],
        [''/opt/certbot/bin/pip'', ''install'', ''--upgrade'', ''pip''],
        [''/opt/certbot/bin/pip'', ''install'', ''certbot'', ''certbot-nginx''],
        [''ln'', ''-s'', ''/opt/certbot/bin/certbot'', ''/usr/bin/certbot''],
        [''pkill'', ''nginx''],
        [''certbot'', ''--nginx'', ''--agree-tos'', ''--test-cert'', ''--non-interactive'',
         ''--email'', ''ops@example.org'', ''-d'', ''example.org''],
        [''pkill'', ''nginx'']]"
    by (simp add: ssl_commands_def certbot_cmd_def apt_update_wrappers_def demo_wrappers_def sh_def)
  finally have 2: "sh ?st [] (set_up_ssl_cert apt_update_wrappers ''example.org'' ''ops@example.org'')
     = [[''apt-get'', ''update''],
        [''python3'', ''-m'', ''venv'', ''/opt/certbot/''],
        [''/opt/certbot/bin/pip'', ''install'', ''--upgrade'', ''pip''],
        [''/opt/certbot/bin/pip'', ''install'', ''certbot'', ''certbot-nginx''],
        [''ln'', ''-s'', ''/opt/certbot/bin/certbot'', ''/usr/bin/certbot''],
        [''pkill'', ''nginx''],
        [''certbot'', ''--nginx'', ''--agree-tos'', ''--test-cert'', ''--non-interactive'',
         ''--email'', ''ops@example.org'', ''-d'', ''example.org''],
        [''pkill'', ''nginx'']]" .
  have m: "[''pkill'', ''nginx''] \<in> set (ssl_commands apt_update_wrappers ''example.org'' ''ops@example.org'')"
    by (simp add: ssl_commands_def)
  have f: "first_simple [''pkill'', ''nginx''] = [''pkill'', ''nginx'']"
    by (simp add: first_simple_def is_operator_def)
  from chained have "\<forall>c \<in> set (ssl_commands apt_update_wrappers ''example.org'' ''ops@example.org'').
      first_simple c \<in> set (sh ?st [] (set_up_ssl_cert apt_update_wrappers ''example.org'' ''ops@example.org''))"
    by blast
  with m have "first_simple [''pkill'', ''nginx'']
      \<in> set (sh ?st [] (set_up_ssl_cert apt_update_wrappers ''example.org'' ''ops@example.org''))"
    by blast
  then have 3: "[''pkill'', ''nginx'']
      \<in> set (sh ?st [] (set_up_ssl_cert apt_update_wrappers ''example.org'' ''ops@example.org''))"
    unfolding f .
  from 1 2 3 show ?thesis by (intro conjI)
qed

section \<open>Properties of deploy\<close>

lemma then_do_assoc: "then_do (then_do m f) g = then_do m (\<lambda>v. then_do (f v) g)"
  by (rule ext) (simp add: then_do_def split: prod.splits sum.splits)

lemma then_do_pass: "then_do pass f = f ()"
  by (rule ext) (simp add: then_do_def pass_def)

lemma then_do_if: "then_do (if b then m else n) f = (if b then then_do m f else then_do n f)"
  by simp

lemma deploy_structure:
  "deploy s W w =
     then_do (ensure s (probe ''docker'') (docker_install_actions W)) (\<lambda>_.
     then_do (ensure s (probe ''python'') (python_install_actions W)) (\<lambda>_.
     then_do (ensure s (probe ''nginx'') (nginx_install_actions W)) (\<lambda>_.
     issue s (rollout W w))))"
  by (simp add: deploy_def ensure_def rollout_def docker_install_actions_def
      python_install_actions_def nginx_install_actions_def session_run_def session_upload_def
      then_do_assoc then_do_pass then_do_if cong: if_cong)


lemma perform_cases:
  "perform s a log = (r, log') \<Longrightarrow>
     log' = log @ [a] \<and> (case s log a of Returns rc \<Rightarrow> r = Inr rc | Raises e \<Rightarrow> r = Inl e)"
  by (auto simp: perform_def split: reply.splits)

lemma answered_append:
  "answered s log as None \<Longrightarrow> answered s (log @ as) bs e \<Longrightarrow> answered s log (as @ bs) e"
  by (induction as arbitrary: log) (auto split: reply.splits)

lemma issue_log:
  "issue s as log = (r, log') \<Longrightarrow>
     \<exists>k \<le> length as. log' = log @ take k as \<and> answered s log (take k as) (raised r)
        \<and> (r = Inr () \<longrightarrow> k = length as)"
proof (induction as arbitrary: log)
  case Nil
  then show ?case by (auto simp: pass_def raised_def)
next
  case (Cons a as)
  show ?case
  proof (cases "s log a")
    case (Returns rc)
    with Cons.prems have "issue s as (log @ [a]) = (r, log')"
      by (simp add: then_do_def perform_def)
    from Cons.IH [OF this] obtain k where k: "k \<le> length as" "log' = (log @ [a]) @ take k as"
      "answered s (log @ [a]) (take k as) (raised r)" "r = Inr () \<longrightarrow> k = length as"
      by blast
    with Returns show ?thesis
      by (intro exI [of _ "Suc k"]) simp
  next
    case (Raises e)
    with Cons.prems have "r = Inl e" "log' = log @ [a]"
      by (auto simp: then_do_def perform_def)
    with Raises show ?thesis
      by (intro exI [of _ "Suc 0"]) (simp add: raised_def)
  qed
qed

lemma ensure_log:
  assumes "ensure s p ins log = (r, log')"
  shows "\<exists>pre. log' = log @ pre \<and> set pre \<subseteq> insert (Run p) (set ins)
            \<and> answered s log pre (raised r)"
proof (cases "s log (Run p)")
  case (Raises e)
  with assms have "r = Inl e" "log' = log @ [Run p]"
    by (auto simp: ensure_def then_do_def perform_def session_run_def)
  with Raises show ?thesis
    by (intro exI [of _ "[Run p]"]) (simp add: raised_def)
next
  case (Returns rc)
  show ?thesis
  proof (cases "truthy rc")
    case False
    with Returns assms have "r = Inr ()" "log' = log @ [Run p]"
      by (auto simp: ensure_def then_do_def perform_def session_run_def pass_def)
    with Returns show ?thesis
      by (intro exI [of _ "[Run p]"]) (simp add: raised_def)
  next
    case True
    with Returns assms have "issue s ins (log @ [Run p]) = (r, log')"
      by (simp add: ensure_def then_do_def perform_def session_run_def)
    from issue_log [OF this] obtain k where
      k: "log' = (log @ [Run p]) @ take k ins" "answered s (log @ [Run p]) (take k ins) (raised r)"
      by blast
    have "set (take k ins) \<subseteq> set ins" by (rule set_take_subset)
    with k Returns show ?thesis
      by (intro exI [of _ "Run p # take k ins"]) auto
  qed
qed

lemma then_do_log:
  assumes "then_do m f log = (r, log'')"
    and m: "\<And>r' l'. m log = (r', l') \<Longrightarrow> \<exists>pre. l' = log @ pre \<and> set pre \<subseteq> A \<and> answered s log pre (raised r')"
    and f: "\<And>v l' r' l''. f v l' = (r', l'') \<Longrightarrow> \<exists>post. l'' = l' @ post \<and> Q post r' \<and> answered s l' post (raised r')"
    and q: "\<And>e. Q [] (Inl e)"
  shows "\<exists>pre post. log'' = log @ pre @ post \<and> set pre \<subseteq> A \<and> Q post r \<and> answered s log (pre @ post) (raised r)"
proof (cases "m log")
  case (Pair r' l')
  from m [OF Pair] obtain pre where pre: "l' = log @ pre" "set pre \<subseteq> A" "answered s log pre (raised r')"
    by blast
  show ?thesis
  proof (cases r')
    case (Inl e)
    with Pair assms(1) have "r = Inl e" "log'' = l'" by (auto simp: then_do_def)
    with pre Inl q have "log'' = log @ pre @ [] \<and> set pre \<subseteq> A \<and> Q [] r
        \<and> answered s log (pre @ []) (raised r)" by (simp add: raised_def)
    then show ?thesis by blast
  next
    case (Inr v)
    with Pair assms(1) have "f v l' = (r, log'')" by (simp add: then_do_def)
    from f [OF this] obtain post where post: "log'' = l' @ post" "Q post r" "answered s l' post (raised r)"
      by blast
    from pre Inr have "answered s log pre None" by (simp add: raised_def)
    with post pre have "answered s log (pre @ post) (raised r)"
      by (simp add: answered_append)
    with pre post have "log'' = log @ pre @ post \<and> set pre \<subseteq> A \<and> Q post r
        \<and> answered s log (pre @ post) (raised r)" by simp
    then show ?thesis by blast
  qed
qed


lemma ensure_then:
  assumes run: "then_do (ensure s p ins) (\<lambda>_. rest) log = (r, log')"
    and rest: "\<And>l r' l'. rest l = (r', l') \<Longrightarrow>
        \<exists>pre post. l' = l @ pre @ post \<and> set pre \<subseteq> A \<and> T post r' \<and> answered s l (pre @ post) (raised r')"
    and inA: "Run p \<in> A" "set ins \<subseteq> A"
    and T0: "\<And>e. T [] (Inl e)"
  shows "\<exists>pre post. log' = log @ pre @ post \<and> set pre \<subseteq> A \<and> T post r
           \<and> answered s log (pre @ post) (raised r)"
proof -
  let ?Q = "\<lambda>post r. \<exists>pre' post'. post = pre' @ post' \<and> set pre' \<subseteq> A \<and> T post' r"
  have m: "\<And>r' l'. ensure s p ins log = (r', l') \<Longrightarrow>
      \<exists>pre. l' = log @ pre \<and> set pre \<subseteq> insert (Run p) (set ins) \<and> answered s log pre (raised r')"
    by (rule ensure_log)
  have f: "\<And>v l' r' l''. (\<lambda>_. rest) v l' = (r', l'') \<Longrightarrow>
      \<exists>post. l'' = l' @ post \<and> ?Q post r' \<and> answered s l' post (raised r')"
    using rest by fastforce
  have q: "\<And>e. ?Q [] (Inl e)" using T0 by simp
  from then_do_log [of "ensure s p ins" "\<lambda>_. rest" log r log' "insert (Run p) (set ins)" s ?Q,
      OF run m f q]
  obtain pre post where a: "log' = log @ pre @ post" "set pre \<subseteq> insert (Run p) (set ins)"
    "?Q post r" "answered s log (pre @ post) (raised r)"
    by blast
  from a(3) obtain pre' post' where b: "post = pre' @ post'" "set pre' \<subseteq> A" "T post' r"
    by blast
  from a b inA have "log' = log @ (pre @ pre') @ post' \<and> set (pre @ pre') \<subseteq> A \<and> T post' r
      \<and> answered s log ((pre @ pre') @ post') (raised r)"
    by auto
  then show ?thesis by blast
qed

lemma deploy_log:
  assumes "deploy s W w log = (r, log')"
  shows "\<exists>pre post. log' = log @ pre @ post \<and> set pre \<subseteq> set (provisioning W)
           \<and> rollout_prefix W w post r \<and> answered s log (pre @ post) (raised r)"
proof -
  let ?A = "set (provisioning W)"
  let ?T = "rollout_prefix W w"
  have T0: "\<And>e. ?T [] (Inl e)"
    by (auto simp: rollout_prefix_def intro: exI [of _ 0])
  have r4: "\<And>l r' l'. issue s (rollout W w) l = (r', l') \<Longrightarrow>
      \<exists>pre post. l' = l @ pre @ post \<and> set pre \<subseteq> ?A \<and> ?T post r' \<and> answered s l (pre @ post) (raised r')"
  proof -
    fix l r' l' assume "issue s (rollout W w) l = (r', l')"
    from issue_log [OF this] obtain k where "k \<le> length (rollout W w)" "l' = l @ take k (rollout W w)"
      "answered s l (take k (rollout W w)) (raised r')" "r' = Inr () \<longrightarrow> k = length (rollout W w)"
      by blast
    then have "l' = l @ [] @ take k (rollout W w) \<and> set [] \<subseteq> ?A \<and> ?T (take k (rollout W w)) r'
        \<and> answered s l ([] @ take k (rollout W w)) (raised r')"
      by (auto simp: rollout_prefix_def)
    then show "\<exists>pre post. l' = l @ pre @ post \<and> set pre \<subseteq> ?A \<and> ?T post r'
        \<and> answered s l (pre @ post) (raised r')"
      by blast
  qed
  have r3: "\<And>l r' l'. then_do (ensure s (probe ''nginx'') (nginx_install_actions W))
        (\<lambda>_. issue s (rollout W w)) l = (r', l') \<Longrightarrow>
      \<exists>pre post. l' = l @ pre @ post \<and> set pre \<subseteq> ?A \<and> ?T post r' \<and> answered s l (pre @ post) (raised r')"
    by (erule ensure_then [where A = ?A and T = ?T, OF _ r4 _ _ T0])
       (auto simp: provisioning_def)
  have r2: "\<And>l r' l'. then_do (ensure s (probe ''python'') (python_install_actions W)) (\<lambda>_.
        then_do (ensure s (probe ''nginx'') (nginx_install_actions W))
        (\<lambda>_. issue s (rollout W w))) l = (r', l') \<Longrightarrow>
      \<exists>pre post. l' = l @ pre @ post \<and> set pre \<subseteq> ?A \<and> ?T post r' \<and> answered s l (pre @ post) (raised r')"
    by (erule ensure_then [where A = ?A and T = ?T, OF _ r3 _ _ T0])
       (auto simp: provisioning_def)
  from assms show ?thesis unfolding deploy_structure
    by (rule ensure_then [where A = ?A and T = ?T, OF _ r2 _ _ T0])
       (auto simp: provisioning_def)
qed

lemma deploy_probe_raises:
  "s log (Run (probe ''docker'')) = Raises e \<Longrightarrow>
     deploy s W w log = (Inl e, log @ [Run (probe ''docker'')])"
  by (simp add: deploy_def then_do_def session_run_def perform_def)

text \<open>
  C1 (as amended).  Every run of \<open>deploy\<close> issues actions of the three conditional
  installs and then a prefix of the rollout: upload of the build directory, copy of the
  reverse-proxy config, remote compose build, certificate setup, proxy reload, in this
  order; on a successful return the prefix is the whole rollout.  A step that raises is
  the last action issued (\<open>answered\<close>), so all remaining steps are aborted; in particular
  a docker probe that raises ends \<open>deploy\<close> before the upload.  The exit status that a
  step returns is not inspected outside the three probes: when every step returns,
  whatever the statuses are, \<open>deploy\<close> runs to the end.
\<close>

theorem deploy_order_and_abort:
  "\<exists>pre post. snd (deploy s W w []) = pre @ post
     \<and> set pre \<subseteq> set (provisioning W)
     \<and> rollout_prefix W w post (fst (deploy s W w []))
     \<and> answered s [] (snd (deploy s W w [])) (raised (fst (deploy s W w [])))
     \<and> (\<forall>e. s [] (Run (probe ''docker'')) = Raises e \<longrightarrow>
           deploy s W w [] = (Inl e, [Run (probe ''docker'')]))"
proof -
  obtain r log' where d: "deploy s W w [] = (r, log')" by (cases "deploy s W w []")
  from deploy_log [OF d] obtain pre post where
    "log' = pre @ post" "set pre \<subseteq> set (provisioning W)" "rollout_prefix W w post r"
    "answered s [] (pre @ post) (raised r)"
    by auto
  with d have "snd (deploy s W w []) = pre @ post
     \<and> set pre \<subseteq> set (provisioning W)
     \<and> rollout_prefix W w post (fst (deploy s W w []))
     \<and> answered s [] (snd (deploy s W w [])) (raised (fst (deploy s W w [])))"
    by simp
  moreover have "\<forall>e. s [] (Run (probe ''docker'')) = Raises e \<longrightarrow>
           deploy s W w [] = (Inl e, [Run (probe ''docker'')])"
    using deploy_probe_raises [of s "[]"] by simp
  ultimately show ?thesis by blast
qed

lemma issue_returns:
  "\<forall>log a. \<exists>rc. s log a = Returns rc \<Longrightarrow> issue s as log = (Inr (), log @ as)"
proof (induction as arbitrary: log)
  case Nil
  show ?case by (simp add: pass_def)
next
  case (Cons a as)
  from Cons.prems obtain rc where "s log a = Returns rc" by blast
  with Cons.IH [OF Cons.prems, of "log @ [a]"] show ?case
    by (simp add: then_do_def perform_def)
qed

lemma ensure_returns:
  assumes "\<forall>log a. \<exists>rc. s log a = Returns rc"
  shows "ensure s p ins log =
     (Inr (), log @ Run p # (if failing (s log (Run p)) then ins else []))"
proof -
  from assms obtain rc where "s log (Run p) = Returns rc" by blast
  then show ?thesis
    by (simp add: ensure_def then_do_def perform_def session_run_def failing_def truthy_def
        pass_def issue_returns [OF assms])
qed

text \<open>
  C2.  The probe \<open>command -v tool\<close> exits with status 0 when the tool is found and with a
  non-zero status when it is absent, and \<open>session.run\<close> returns that status.  In a
  session whose calls all return, each install command (for the container runtime, the
  Python shim, the reverse-proxy server with the removal of its default sites) is issued
  right after its probe exactly when the probe returned a non-zero status, and is
  skipped when the probe returned 0.
\<close>

theorem deploy_installs_iff_absent:
  assumes "\<forall>log a. \<exists>rc. s log a = Returns rc"
  shows "deploy s W w [] =
     (let b1 = Run (probe ''docker'') #
                 (if failing (s [] (Run (probe ''docker''))) then docker_install_actions W else []);
          b2 = Run (probe ''python'') #
                 (if failing (s b1 (Run (probe ''python''))) then python_install_actions W else []);
          b3 = Run (probe ''nginx'') #
                 (if failing (s (b1 @ b2) (Run (probe ''nginx''))) then nginx_install_actions W else [])
      in (Inr (), b1 @ b2 @ b3 @ rollout W w))"
  by (simp add: deploy_structure then_do_def ensure_returns [OF assms] issue_returns [OF assms]
      Let_def)

theorem deploy_installs_iff_absent_witness:
  "deploy all_absent demo_wrappers demo_webapp [] =
     (Inr (), [Run (probe ''docker''), Run [''sh'', ''get-docker.sh''],
               Run (probe ''python''), Run [''apt-get'', ''install'', ''-y'', ''python-is-python3''],
               Run (probe ''nginx''), Run [''apt-get'', ''install'', ''-y'', ''nginx''],
               Run [''rm'', ''/etc/nginx/sites-available/default''],
               Run [''rm'', ''/etc/nginx/sites-enabled/default'']]
              @ rollout demo_wrappers demo_webapp)
   \<and> deploy all_present demo_wrappers demo_webapp [] =
     (Inr (), [Run (probe ''docker''), Run (probe ''python''), Run (probe ''nginx'')]
              @ rollout demo_wrappers demo_webapp)"
proof -
  have a: "\<forall>log a. \<exists>rc. all_absent log a = Returns rc" by (simp add: all_absent_def)
  have p: "\<forall>log a. \<exists>rc. all_present log a = Returns rc" by (simp add: all_present_def)
  have fa: "\<And>l t. failing (all_absent l (Run (probe t))) = (t \<in> {''docker'', ''python'', ''nginx''})"
    by (auto simp: all_absent_def failing_def probe_def)
  have fp: "\<And>l x. \<not> failing (all_present l x)"
    by (simp add: all_present_def failing_def)
  have i: "install_docker demo_wrappers = [''sh'', ''get-docker.sh'']"
    "\<And>pkgs. apt_get_install demo_wrappers pkgs = [''apt-get'', ''install'', ''-y''] @ pkgs"
    by (simp_all add: demo_wrappers_def)
  from deploy_installs_iff_absent [OF a, of demo_wrappers demo_webapp]
    deploy_installs_iff_absent [OF p, of demo_wrappers demo_webapp]
  show ?thesis
    by (simp add: Let_def fa fp i docker_install_actions_def
        python_install_actions_def nginx_install_actions_def)
qed

lemma deploy_all_present:
  "deploy all_present demo_wrappers demo_webapp [] =
     (Inr (), [Run (probe ''docker''), Run (probe ''python''), Run (probe ''nginx'')]
              @ rollout demo_wrappers demo_webapp)"
  by (simp add: deploy_def then_do_def session_run_def session_upload_def perform_def
      all_present_def truthy_def pass_def rollout_def)

theorem deploy_order_and_abort_witness:
  "deploy probe_raises demo_wrappers demo_webapp [] =
     (Inl (RemoteError ''connection lost''), [Run (probe ''docker'')])
   \<and> rollout_prefix demo_wrappers demo_webapp (rollout demo_wrappers demo_webapp)
        (fst (deploy all_present demo_wrappers demo_webapp []))
   \<and> answered all_present [] (snd (deploy all_present demo_wrappers demo_webapp []))
        (raised (fst (deploy all_present demo_wrappers demo_webapp [])))"
proof -
  have r: "probe_raises [] (Run (probe ''docker'')) = Raises (RemoteError ''connection lost'')"
    by (simp add: probe_raises_def)
  from deploy_order_and_abort [of probe_raises demo_wrappers demo_webapp] r
  have 1: "deploy probe_raises demo_wrappers demo_webapp [] =
     (Inl (RemoteError ''connection lost''), [Run (probe ''docker'')])"
    by blast
  from deploy_order_and_abort [of all_present demo_wrappers demo_webapp]
  have 2: "answered all_present [] (snd (deploy all_present demo_wrappers demo_webapp []))
        (raised (fst (deploy all_present demo_wrappers demo_webapp [])))"
    by blast
  have 3: "rollout_prefix demo_wrappers demo_webapp (rollout demo_wrappers demo_webapp)
        (fst (deploy all_present demo_wrappers demo_webapp []))"
    by (simp add: rollout_prefix_def deploy_all_present
        exI [of _ "length (rollout demo_wrappers demo_webapp)"])
  from 1 2 3 show ?thesis by blast
qed

text \<open>
  C1 as stated fails: in the session \<open>cp_fails\<close> the copy of the reverse-proxy config
  returns the failing status 1, and \<open>deploy\<close> still issues the compose build, the
  certificate setup and the proxy reload and returns normally.
\<close>

theorem deploy_failing_status_counterexample:
  "failing (cp_fails [Run (probe ''docker''), Run (probe ''python''), Run (probe ''nginx''),
                      Upload (target_build_dir demo_webapp) (deployment_dir demo_webapp)]
              (Run (copy_nginx_config demo_webapp)))
   \<and> deploy cp_fails demo_wrappers demo_webapp [] =
     (Inr (), [Run (probe ''docker''), Run (probe ''python''), Run (probe ''nginx''),
               Upload (target_build_dir demo_webapp) (deployment_dir demo_webapp),
               Run (copy_nginx_config demo_webapp),
               Run (docker_compose_build demo_wrappers (deployed_docker_compose_yaml demo_webapp)),
               Run (set_up_ssl_cert demo_wrappers (domain_name demo_webapp) (email demo_webapp)),
               Run [''service'', ''nginx'', ''reload'']])"
  by (simp add: deploy_def then_do_def session_run_def session_upload_def perform_def
      cp_fails_def truthy_def pass_def failing_def probe_def copy_nginx_config_def)

section \<open>Properties of configure_compose\<close>

lemma map_of_setitem: "map_of (setitem kvs k v) = (map_of kvs)(k \<mapsto> v)"
  by (induction kvs) (auto simp: fun_eq_iff)

lemma keys_setitem_present: "k \<in> fst ` set kvs \<Longrightarrow> map fst (setitem kvs k v) = map fst kvs"
  by (induction kvs) force+

lemma keys_setitem_absent: "k \<notin> fst ` set kvs \<Longrightarrow> map fst (setitem kvs k v) = map fst kvs @ [k]"
  by (induction kvs) auto

lemma keys_setitem:
  "map fst (setitem kvs k v) = (if k \<in> fst ` set kvs then map fst kvs else map fst kvs @ [k])"
  by (simp add: keys_setitem_present keys_setitem_absent)

lemma keys_setitem_Some: "map_of kvs k = Some x \<Longrightarrow> map fst (setitem kvs k v) = map fst kvs"
  by (rule keys_setitem_present) (auto dest: map_of_SomeD intro: rev_image_eqI)

lemma str_8080: "str_int 8080 = ''8080''" "str_int 80 = ''80''" "str_int 8443 = ''8443''" "str_int 443 = ''443''"
  by (simp_all add: str_int_def str_nat.simps)

lemma port_strings_demo: "port_strings [(8080, 80), (8443, 443)] = [''8080:80'', ''8443:443'']"
  by (simp add: port_strings_def str_8080)

lemma lookup_update: "lookup (h[r := ob]) q = (if q = r \<and> r < length h then Some ob else lookup h q)"
  by (simp add: lookup_def)

lemma lookup_append: "lookup (h @ [ob]) q = (if q = length h then Some ob else lookup h q)"
  by (auto simp: lookup_def nth_append)

lemma lookup_length: "lookup h (length h) = None"
  by (simp add: lookup_def)

lemma lookup_Some: "lookup h r = Some ob \<Longrightarrow> r < length h"
  by (simp add: lookup_def split: if_splits)

lemma configure_compose_result:
  assumes fl: "fs (dir @ [''docker-compose.yaml'']) = Some (File text)"
    and load: "yaml_load Y text = Some (h, data)"
    and sv: "getitem h data ''services'' = Inr services"
    and ap: "getitem h services app_name = Inr (YRef r)"
    and ob: "lookup h r = Some (OMap service)"
  shows "configure_compose Y dir app_name ports fs =
     (Inr (), fs(dir @ [''docker-compose.yaml''] \<mapsto> File (yaml_dump Y
        ((h @ [OList (map YStr (port_strings ports))])
            [r := OMap (setitem service ''ports'' (YRef (length h)))], data))))"
proof -
  from ob have r: "r < length h" by (rule lookup_Some)
  with ob have "lookup (h @ [OList (map YStr (port_strings ports))]) r = Some (OMap service)"
    by (simp add: lookup_append)
  then have upd: "dict_update (h @ [OList (map YStr (port_strings ports))]) (YRef r) ''ports'' (YRef (length h))
      = Inr ((h @ [OList (map YStr (port_strings ports))])[r := OMap (setitem service ''ports'' (YRef (length h)))])"
    by (simp add: dict_update_def)
  show ?thesis
    using fl load sv ap upd
    by (simp add: configure_compose_def read_text_def write_text_def stat_def alloc_def)
qed

text \<open>
  C3 (as amended).  When the service entry of the compose document keyed by the target
  name is a mapping, mutating it with the port mapping \<open>{8080: 80, 8443: 443}\<close> succeeds and
  writes back the loaded document, in which the \<open>ports\<close> field of that mapping is a new
  list, exactly \<open>["8080:80", "8443:443"]\<close> in the order of the port mapping.  The other
  keys of that mapping keep their values and their positions, every other object of the
  document is unchanged, and no other file changes.  A key elsewhere in the document
  changes with it only when its value is this same mapping, as under a YAML alias.
\<close>

theorem configure_compose_sets_ports:
  assumes "fs (dir @ [''docker-compose.yaml'']) = Some (File text)"
    and "yaml_load Y text = Some (h, data)"
    and "getitem h data ''services'' = Inr services"
    and "getitem h services app_name = Inr (YRef r)"
    and "lookup h r = Some (OMap service)"
  shows "\<exists>h' service'.
     configure_compose Y dir app_name [(8080, 80), (8443, 443)] fs
        = (Inr (), fs(dir @ [''docker-compose.yaml''] \<mapsto> File (yaml_dump Y (h', data))))
     \<and> lookup h' r = Some (OMap service')
     \<and> map_of service' = (map_of service)(''ports'' \<mapsto> YRef (length h))
     \<and> map fst service' =
          (if ''ports'' \<in> fst ` set service then map fst service else map fst service @ [''ports''])
     \<and> lookup h (length h) = None
     \<and> lookup h' (length h) = Some (OList [YStr ''8080:80'', YStr ''8443:443''])
     \<and> (\<forall>q. q \<noteq> r \<and> q \<noteq> length h \<longrightarrow> lookup h' q = lookup h q)"
proof -
  let ?l = "OList [YStr ''8080:80'', YStr ''8443:443'']"
  let ?service' = "setitem service ''ports'' (YRef (length h))"
  let ?h' = "(h @ [?l])[r := OMap ?service']"
  from assms(5) have r: "r < length h" by (rule lookup_Some)
  have run: "configure_compose Y dir app_name [(8080, 80), (8443, 443)] fs
        = (Inr (), fs(dir @ [''docker-compose.yaml''] \<mapsto> File (yaml_dump Y (?h', data))))"
    using configure_compose_result [where fs = fs and dir = dir, OF assms, of "[(8080, 80), (8443, 443)]"]
    by (simp add: port_strings_demo)
  have 1: "lookup ?h' r = Some (OMap ?service')" using r by (simp add: lookup_update)
  have 2: "map_of ?service' = (map_of service)(''ports'' \<mapsto> YRef (length h))"
    by (rule map_of_setitem)
  have 3: "map fst ?service' =
          (if ''ports'' \<in> fst ` set service then map fst service else map fst service @ [''ports''])"
    by (rule keys_setitem)
  have 4: "lookup h (length h) = None" by (rule lookup_length)
  have 5: "lookup ?h' (length h) = Some ?l" using r by (simp add: lookup_update lookup_append)
  have 6: "\<forall>q. q \<noteq> r \<and> q \<noteq> length h \<longrightarrow> lookup ?h' q = lookup h q"
    by (simp add: lookup_update lookup_append)
  from run 1 2 3 4 5 6 show ?thesis by blast
qed

theorem configure_compose_sets_ports_witness:
  "configure_compose demo_yaml [''b''] ''shop'' [(8080, 80), (8443, 443)]
         (compose_fs ''services: {shop: {build: ., ports: null}}'')
        = (Inr (), compose_fs ''services: {shop: {build: ., ports: [8080:80, 8443:443]}}'')"
proof -
  let ?fs = "compose_fs ''services: {shop: {build: ., ports: null}}''"
  let ?h = "fst demo_compose"
  have 1: "?fs ([''b''] @ [''docker-compose.yaml'']) = Some (File ''services: {shop: {build: ., ports: null}}'')"
    by (simp add: compose_fs_def)
  have 2: "yaml_load demo_yaml ''services: {shop: {build: ., ports: null}}'' = Some (?h, YRef 0)"
    by (simp add: demo_yaml_def demo_compose_def)
  have 3: "getitem ?h (YRef 0) ''services'' = Inr (YRef 1)"
    by (simp add: getitem_def lookup_def demo_compose_def)
  have 4: "getitem ?h (YRef 1) ''shop'' = Inr (YRef 2)"
    by (simp add: getitem_def lookup_def demo_compose_def)
  have 5: "lookup ?h 2 = Some (OMap [(''build'', YStr ''.''), (''ports'', YNull)])"
    by (simp add: lookup_def demo_compose_def)
  have len: "length ?h = 3" by (simp add: demo_compose_def)
  from configure_compose_sets_ports [where fs = ?fs and dir = "[''b'']", OF 1 2 3 4 5]
  obtain h' service' where
    run: "configure_compose demo_yaml [''b''] ''shop'' [(8080, 80), (8443, 443)] ?fs
        = (Inr (), ?fs([''b''] @ [''docker-compose.yaml''] \<mapsto> File (yaml_dump demo_yaml (h', YRef 0))))"
    and s: "lookup h' 2 = Some (OMap service')"
      "map_of service' = (map_of [(''build'', YStr ''.''), (''ports'', YNull)])(''ports'' \<mapsto> YRef (length ?h))"
      "map fst service' =
          (if ''ports'' \<in> fst ` set [(''build'', YStr ''.''), (''ports'', YNull)]
           then map fst [(''build'', YStr ''.''), (''ports'', YNull)]
           else map fst [(''build'', YStr ''.''), (''ports'', YNull)] @ [''ports''])"
    and l: "lookup h' (length ?h) = Some (OList [YStr ''8080:80'', YStr ''8443:443''])"
    and rest: "\<forall>q. q \<noteq> 2 \<and> q \<noteq> length ?h \<longrightarrow> lookup h' q = lookup ?h q"
    by blast
  have b: "configure_compose demo_yaml [''b''] ''shop'' [(8080, 80), (8443, 443)] ?fs
        = (Inr (), compose_fs ''services: {shop: {build: ., ports: [8080:80, 8443:443]}}'')"
    by (simp add: configure_compose_def compose_fs_def read_text_def write_text_def stat_def
        demo_yaml_def demo_compose_def port_strings_demo getitem_def dict_update_def lookup_def alloc_def)
  from run b show ?thesis by simp
qed

theorem configure_compose_entry_counterexample:
  "has_service ([OMap [(''services'', YRef 1)], OMap [(''shop'', YNull)]], YRef 0) ''shop''
   \<and> configure_compose demo_yaml [''b''] ''shop'' [(8080, 80), (8443, 443)]
         (compose_fs ''services: {shop: null}'')
        = (Inl AttributeError, compose_fs ''services: {shop: null}'')
   \<and> has_service alias_compose ''shop''
   \<and> configure_compose demo_yaml [''b''] ''shop'' [(8080, 80), (8443, 443)]
         (compose_fs ''services: {a: &x {build: .}, shop: *x}'')
        = (Inr (), compose_fs ''services: {a: &x {build: ., ports: [8080:80, 8443:443]}, shop: *x}'')"
  by (simp add: has_service_def configure_compose_def compose_fs_def read_text_def write_text_def
      stat_def demo_yaml_def alias_compose_def port_strings_demo getitem_def dict_update_def
      lookup_def alloc_def)

text \<open>
  C5.  When the compose document has no service entry keyed by the target name, the
  mutation raises and the file system is left as it was: the document on disk is not
  rewritten and no service block is created.  When \<open>services\<close> is a mapping, the exception
  is the \<open>KeyError\<close> of the target name.
\<close>

theorem configure_compose_missing_service:
  assumes "fs (dir @ [''docker-compose.yaml'']) = Some (File text)"
    and "yaml_load Y text = Some (h, data)"
    and "\<not> has_service (h, data) app_name"
  shows "\<exists>e. configure_compose Y dir app_name app_docker_ports fs = (Inl e, fs)
           \<and> (\<forall>r items r' services. data = YRef r \<and> lookup h r = Some (OMap items)
                 \<and> map_of items ''services'' = Some (YRef r') \<and> lookup h r' = Some (OMap services)
                 \<longrightarrow> e = KeyError app_name)"
proof (cases "getitem h data ''services''")
  case (Inl e)
  with assms(1,2) have run: "configure_compose Y dir app_name app_docker_ports fs = (Inl e, fs)"
    by (simp add: configure_compose_def read_text_def stat_def)
  have "\<not> (\<exists>r items r' services. data = YRef r \<and> lookup h r = Some (OMap items)
                 \<and> map_of items ''services'' = Some (YRef r') \<and> lookup h r' = Some (OMap services))"
    using Inl by (auto simp: getitem_def)
  with run show ?thesis by blast
next
  case (Inr services)
  have no: "\<exists>e. getitem h services app_name = Inl e
            \<and> (\<forall>r' svs. services = YRef r' \<and> lookup h r' = Some (OMap svs) \<longrightarrow> e = KeyError app_name)"
  proof (cases services)
    case (YRef r')
    show ?thesis
    proof (cases "lookup h r'")
      case None
      with YRef show ?thesis by (simp add: getitem_def)
    next
      case (Some ob)
      show ?thesis
      proof (cases ob)
        case (OList xs)
        with YRef Some show ?thesis by (simp add: getitem_def)
      next
        case (OMap svs)
        with assms(3) Inr YRef Some have "map_of svs app_name = None"
          by (simp add: has_service_def)
        with YRef Some OMap show ?thesis by (simp add: getitem_def)
      qed
    qed
  qed (simp_all add: getitem_def)
  then obtain e where e: "getitem h services app_name = Inl e"
    and k: "\<forall>r' svs. services = YRef r' \<and> lookup h r' = Some (OMap svs) \<longrightarrow> e = KeyError app_name"
    by blast
  from assms(1,2) Inr e have run: "configure_compose Y dir app_name app_docker_ports fs = (Inl e, fs)"
    by (simp add: configure_compose_def read_text_def stat_def)
  have "\<forall>r items r' svs. data = YRef r \<and> lookup h r = Some (OMap items)
                 \<and> map_of items ''services'' = Some (YRef r') \<and> lookup h r' = Some (OMap svs)
                 \<longrightarrow> e = KeyError app_name"
  proof (intro allI impI)
    fix r items r' svs
    assume a: "data = YRef r \<and> lookup h r = Some (OMap items)
                 \<and> map_of items ''services'' = Some (YRef r') \<and> lookup h r' = Some (OMap svs)"
    then have "getitem h data ''services'' = Inr (YRef r')" by (simp add: getitem_def)
    with Inr have "services = YRef r'" by simp
    with a k show "e = KeyError app_name" by blast
  qed
  with run show ?thesis by blast
qed

theorem configure_compose_missing_service_witness:
  "configure_compose demo_yaml [''b''] ''shop'' [(8080, 80), (8443, 443)] (compose_fs ''services: {}'')
     = (Inl (KeyError ''shop''), compose_fs ''services: {}'')"
proof -
  let ?h = "[OMap [(''services'', YRef 1)], OMap []]"
  have 1: "compose_fs ''services: {}'' ([''b''] @ [''docker-compose.yaml'']) = Some (File ''services: {}'')"
    by (simp add: compose_fs_def)
  have 2: "yaml_load demo_yaml ''services: {}'' = Some (?h, YRef 0)"
    by (simp add: demo_yaml_def)
  have 3: "\<not> has_service (?h, YRef 0) ''shop''"
    by (simp add: has_service_def getitem_def lookup_def)
  from configure_compose_missing_service [where fs = "compose_fs ''services: {}''" and dir = "[''b'']"
      and app_docker_ports = "[(8080, 80), (8443, 443)]", OF 1 2 3]
  obtain e where e: "configure_compose demo_yaml [''b''] ''shop'' [(8080, 80), (8443, 443)]
        (compose_fs ''services: {}'') = (Inl e, compose_fs ''services: {}'')"
    and k: "\<forall>r items r' services. YRef 0 = YRef r \<and> lookup ?h r = Some (OMap items)
          \<and> map_of items ''services'' = Some (YRef r') \<and> lookup ?h r' = Some (OMap services)
          \<longrightarrow> e = KeyError ''shop''"
    by blast
  have "YRef 0 = YRef 0 \<and> lookup ?h 0 = Some (OMap [(''services'', YRef 1)])
          \<and> map_of [(''services'', YRef 1)] ''services'' = Some (YRef 1) \<and> lookup ?h 1 = Some (OMap [])"
    by (simp add: lookup_def)
  with k have "e = KeyError ''shop''" by blast
  with e show ?thesis by simp
qed

section \<open>Properties of copy_files_with_substitution\<close>

lemma rglob_nonempty: "(p, e) \<in> set (rglob t) \<Longrightarrow> p \<noteq> []"
  by (cases t) auto

lemma rglob_TDir_iff:
  "(p, e) \<in> set (rglob (TDir cs)) \<longleftrightarrow>
     (\<exists>n c. (n, c) \<in> set cs \<and> ((p = [n] \<and> e = kind c) \<or> (\<exists>p'. p = n # p' \<and> (p', e) \<in> set (rglob c))))"
  by force

lemma child_unique: "distinct (map fst cs) \<Longrightarrow> (n, c) \<in> set cs \<Longrightarrow> (n, c') \<in> set cs \<Longrightarrow> c = c'"
  by (meson eq_key_imp_eq_value)

lemma rglob_prefix:
  "wf_tree t \<Longrightarrow> (p, e) \<in> set (rglob t) \<Longrightarrow> (q, e') \<in> set (rglob t) \<Longrightarrow> prefix p q
     \<Longrightarrow> (q = p \<and> e' = e) \<or> (e = EDir \<and> q \<noteq> p)"
proof (induction t arbitrary: p q)
  case (TFile x)
  then show ?case by simp
next
  case (TDir cs)
  from TDir.prems(1) have d: "distinct (map fst cs)" and w: "\<And>n c. (n, c) \<in> set cs \<Longrightarrow> wf_tree c"
    by auto
  from TDir.prems(2) obtain n c where c: "(n, c) \<in> set cs"
    and pc: "(p = [n] \<and> e = kind c) \<or> (\<exists>p'. p = n # p' \<and> (p', e) \<in> set (rglob c))"
    unfolding rglob_TDir_iff by blast
  from TDir.prems(3) obtain m c' where c': "(m, c') \<in> set cs"
    and qc: "(q = [m] \<and> e' = kind c') \<or> (\<exists>q'. q = m # q' \<and> (q', e') \<in> set (rglob c'))"
    unfolding rglob_TDir_iff by blast
  from pc qc TDir.prems(4) have "m = n" by auto
  with d c c' have cc: "c' = c" by (auto dest: child_unique)
  from pc show ?case
  proof
    assume p: "p = [n] \<and> e = kind c"
    from qc show ?thesis
    proof
      assume "q = [m] \<and> e' = kind c'"
      with p cc \<open>m = n\<close> show ?thesis by simp
    next
      assume "\<exists>q'. q = m # q' \<and> (q', e') \<in> set (rglob c')"
      then obtain q' where q': "q = m # q'" "(q', e') \<in> set (rglob c)" using cc by blast
      then have "q' \<noteq> []" by (auto dest: rglob_nonempty)
      moreover from q' have "kind c = EDir" by (cases c) auto
      ultimately show ?thesis using p q' \<open>m = n\<close> by simp
    qed
  next
    assume "\<exists>p'. p = n # p' \<and> (p', e) \<in> set (rglob c)"
    then obtain p' where p': "p = n # p'" "(p', e) \<in> set (rglob c)" by blast
    then have ne: "p' \<noteq> []" by (auto dest: rglob_nonempty)
    from qc show ?thesis
    proof
      assume "q = [m] \<and> e' = kind c'"
      with p' ne TDir.prems(4) show ?thesis by simp
    next
      assume "\<exists>q'. q = m # q' \<and> (q', e') \<in> set (rglob c')"
      then obtain q' where q': "q = m # q'" "(q', e') \<in> set (rglob c)" using cc by blast
      from p' q' TDir.prems(4) have "prefix p' q'" by simp
      from TDir.IH [of "(n, c)" c p' q'] c w [OF c] p'(2) q'(2) this
      have "(q' = p' \<and> e' = e) \<or> (e = EDir \<and> q' \<noteq> p')" by simp
      with p' q' \<open>m = n\<close> show ?thesis by simp
    qed
  qed
qed

lemma distinct_below:
  assumes "distinct (map fst cs)"
    and "\<And>n c. (n, c) \<in> set cs \<Longrightarrow> distinct (map fst (rglob c))"
  shows "distinct (map fst (concat (map (\<lambda>(n, t). map (\<lambda>(p, e). (n # p, e)) (rglob t)) cs)))"
  using assms
proof (induction cs)
  case Nil
  then show ?case by simp
next
  case (Cons a cs)
  obtain n c where a: "a = (n, c)" by (cases a)
  have 1: "distinct (map fst (map (\<lambda>(p, e). (n # p, e)) (rglob c)))"
    using Cons.prems(2) [of n c] a
    by (simp add: distinct_map comp_def case_prod_beta inj_on_def)
  have 2: "distinct (map fst (concat (map (\<lambda>(n, t). map (\<lambda>(p, e). (n # p, e)) (rglob t)) cs)))"
    using Cons.prems by (intro Cons.IH) auto
  have 3: "set (map fst (map (\<lambda>(p, e). (n # p, e)) (rglob c)))
      \<inter> set (map fst (concat (map (\<lambda>(n, t). map (\<lambda>(p, e). (n # p, e)) (rglob t)) cs))) = {}"
    using Cons.prems(1) a by (auto simp: image_iff)
  from 1 2 3 a show ?case by simp
qed

lemma rglob_distinct: "wf_tree t \<Longrightarrow> distinct (map fst (rglob t))"
proof (induction t)
  case (TFile x)
  then show ?case by simp
next
  case (TDir cs)
  from TDir.prems have d: "distinct (map fst cs)" and w: "\<And>n c. (n, c) \<in> set cs \<Longrightarrow> wf_tree c"
    by auto
  have ih: "\<And>n c. (n, c) \<in> set cs \<Longrightarrow> distinct (map fst (rglob c))"
    using TDir.IH w by fastforce
  have top: "map fst (map (\<lambda>(n, t). ([n], kind t)) cs) = map (\<lambda>n. [n]) (map fst cs)"
    by (simp add: comp_def case_prod_beta)
  have 1: "distinct (map fst (map (\<lambda>(n, t). ([n], kind t)) cs))"
    unfolding top using d by (simp add: distinct_map inj_on_def)
  have 2: "distinct (map fst (concat (map (\<lambda>(n, t). map (\<lambda>(p, e). (n # p, e)) (rglob t)) cs)))"
    using d ih by (rule distinct_below)
  have 3: "set (map fst (map (\<lambda>(n, t). ([n], kind t)) cs))
      \<inter> set (map fst (concat (map (\<lambda>(n, t). map (\<lambda>(p, e). (n # p, e)) (rglob t)) cs))) = {}"
    by (auto dest: rglob_nonempty)
  from 1 2 3 show ?case by simp
qed

lemma leaf_files_rglob:
  assumes "wf_tree t"
  shows "leaf_files (rglob t)"
proof -
  have 1: "distinct (map fst (rglob t))" using assms by (rule rglob_distinct)
  have 2: "\<forall>(p, e) \<in> set (rglob t). p \<noteq> []" using rglob_nonempty by fastforce
  have 3: "\<forall>p x q e'. (p, EFile x) \<in> set (rglob t) \<and> (q, e') \<in> set (rglob t) \<and> prefix p q \<longrightarrow> q = p"
  proof (intro allI impI)
    fix p x q e'
    assume a: "(p, EFile x) \<in> set (rglob t) \<and> (q, e') \<in> set (rglob t) \<and> prefix p q"
    then have "(q = p \<and> e' = EFile x) \<or> (EFile x = EDir \<and> q \<noteq> p)"
      using rglob_prefix [OF assms, of p "EFile x" q e'] by blast
    then show "q = p" by simp
  qed
  from 1 2 3 show ?thesis unfolding leaf_files_def by blast
qed

lemma leaf_files_tail:
  assumes "leaf_files (x # es)"
  shows "leaf_files es"
proof -
  from assms have 1: "distinct (map fst es)" by (simp add: leaf_files_def)
  from assms have 2: "\<forall>(p, e) \<in> set es. p \<noteq> []" by (simp add: leaf_files_def)
  from assms have "\<forall>p x' q e'. (p, EFile x') \<in> set (x # es) \<and> (q, e') \<in> set (x # es) \<and> prefix p q \<longrightarrow> q = p"
    unfolding leaf_files_def by blast
  then have 3: "\<forall>p x' q e'. (p, EFile x') \<in> set es \<and> (q, e') \<in> set es \<and> prefix p q \<longrightarrow> q = p"
    by (meson list.set_intros(2))
  from 1 2 3 show ?thesis unfolding leaf_files_def by blast
qed

lemma leaf_files_same:
  assumes "leaf_files es" "(p, e) \<in> set es" "(p, e') \<in> set es"
  shows "e = e'"
proof -
  from assms(1) have "distinct (map fst es)" by (simp add: leaf_files_def)
  from eq_key_imp_eq_value [OF this assms(2) assms(3)] show ?thesis .
qed

lemma leaf_files_leaf:
  assumes "leaf_files es" "(p, EFile x) \<in> set es" "(q, e') \<in> set es" "prefix p q"
  shows "q = p"
  using assms unfolding leaf_files_def by blast

lemma mkdirs_changes:
  "mkdirs done rest fs = Inr fs' \<Longrightarrow>
     fs' p = fs p \<or> (fs p = None \<and> fs' p = Some Dir \<and> prefix p (done @ rest) \<and> strict_prefix done p)"
proof (induction rest arbitrary: "done" fs)
  case Nil
  then show ?case by simp
next
  case (Cons c cs)
  let ?d = "done @ [c]"
  have d1: "prefix ?d (done @ c # cs)" by simp
  have d2: "strict_prefix done ?d" by (simp add: strict_prefix_def)
  have d3: "\<And>q. strict_prefix ?d q \<Longrightarrow> strict_prefix done q"
    using d2 by (auto simp: strict_prefix_def prefix_def)
  show ?case
  proof (cases "fs ?d")
    case None
    with Cons.prems have "mkdirs ?d cs (fs(?d \<mapsto> Dir)) = Inr fs'" by simp
    from Cons.IH [OF this]
    have "fs' p = (fs(?d \<mapsto> Dir)) p \<or>
       ((fs(?d \<mapsto> Dir)) p = None \<and> fs' p = Some Dir \<and> prefix p (done @ c # cs) \<and> strict_prefix ?d p)"
      by simp
    then show ?thesis
    proof
      assume a: "fs' p = (fs(?d \<mapsto> Dir)) p"
      show ?thesis
      proof (cases "p = ?d")
        case True
        with a None d1 d2 show ?thesis by simp
      next
        case False
        with a show ?thesis by simp
      qed
    next
      assume a: "(fs(?d \<mapsto> Dir)) p = None \<and> fs' p = Some Dir \<and> prefix p (done @ c # cs)
          \<and> strict_prefix ?d p"
      then have "p \<noteq> ?d" by auto
      with a have "fs p = None" by simp
      with a d3 show ?thesis by blast
    qed
  next
    case (Some n)
    with Cons.prems have "n = Dir" by (cases n) auto
    with Some Cons.prems have "mkdirs ?d cs fs = Inr fs'" by simp
    from Cons.IH [OF this]
    have "fs' p = fs p \<or>
       (fs p = None \<and> fs' p = Some Dir \<and> prefix p (done @ c # cs) \<and> strict_prefix ?d p)"
      by simp
    with d3 show ?thesis by blast
  qed
qed

lemma mkdir_changes:
  "mkdir_parents_exist_ok q fs = Inr fs' \<Longrightarrow>
     fs' p = fs p \<or> (fs p = None \<and> fs' p = Some Dir \<and> prefix p q \<and> p \<noteq> [])"
  using mkdirs_changes [of "[]" q fs fs' p] by (auto simp: mkdir_parents_exist_ok_def)

lemma write_text_result:
  "write_text p t fs = Inr fs' \<Longrightarrow> fs' = fs(p \<mapsto> File t) \<and> fs p \<noteq> Some Dir"
  by (auto simp: write_text_def stat_def split: option.splits node.splits if_splits)

lemma render_entries_changes:
  "render_entries env target es fs = (r, fs') \<Longrightarrow> fs' p \<noteq> fs p \<Longrightarrow>
     (\<exists>rel. (rel, EDir) \<in> set es \<and> prefix p (target @ rel)) \<or>
     (\<exists>rel text s. (rel, EFile text) \<in> set es \<and> substitute env text = Inr s \<and> p = target @ rel)"
proof (induction env target es fs rule: render_entries.induct)
  case (1 env dst fs)
  then show ?case by simp
next
  case (2 env dst rel es fs)
  show ?case
  proof (cases "mkdir_parents_exist_ok (dst @ rel) fs")
    case (Inl e)
    with 2 show ?thesis by simp
  next
    case (Inr fs1)
    with 2 have run: "render_entries env dst es fs1 = (r, fs')" by simp
    show ?thesis
    proof (cases "fs' p = fs1 p")
      case True
      with 2 Inr mkdir_changes [OF Inr, of p] show ?thesis by auto
    next
      case False
      from "2.IH" [OF Inr run False] show ?thesis by auto
    qed
  qed
next
  case (3 env dst rel tmpl es fs)
  show ?case
  proof (cases "substitute env tmpl")
    case (Inl e)
    with 3 show ?thesis by simp
  next
    case (Inr s)
    show ?thesis
    proof (cases "write_text (dst @ rel) s fs")
      case (Inl e)
      with 3 Inr show ?thesis by simp
    next
      case wr: (Inr fs1)
      with 3 Inr have run: "render_entries env dst es fs1 = (r, fs')" by simp
      show ?thesis
      proof (cases "fs' p = fs1 p")
        case True
        with 3 Inr write_text_result [OF wr] show ?thesis by (auto split: if_splits)
      next
        case False
        from "3.IH" [OF Inr wr run False] show ?thesis by auto
      qed
    qed
  qed
qed

lemma render_entries_keeps_dir:
  "render_entries env target es fs = (r, fs') \<Longrightarrow> fs p = Some Dir \<Longrightarrow> fs' p = Some Dir"
proof (induction env target es fs rule: render_entries.induct)
  case (1 env dst fs)
  then show ?case by simp
next
  case (2 env dst rel es fs)
  show ?case
  proof (cases "mkdir_parents_exist_ok (dst @ rel) fs")
    case (Inl e)
    with 2 show ?thesis by simp
  next
    case (Inr fs1)
    with 2 have run: "render_entries env dst es fs1 = (r, fs')" by simp
    from mkdir_changes [OF Inr, of p] 2 have "fs1 p = Some Dir" by auto
    from "2.IH" [OF Inr run this] show ?thesis .
  qed
next
  case (3 env dst rel tmpl es fs)
  show ?case
  proof (cases "substitute env tmpl")
    case (Inl e)
    with 3 show ?thesis by simp
  next
    case (Inr s)
    show ?thesis
    proof (cases "write_text (dst @ rel) s fs")
      case (Inl e)
      with 3 Inr show ?thesis by simp
    next
      case wr: (Inr fs1)
      with 3 Inr have run: "render_entries env dst es fs1 = (r, fs')" by simp
      from write_text_result [OF wr] 3 have "fs1 p = Some Dir" by auto
      from "3.IH" [OF Inr wr run this] show ?thesis .
    qed
  qed
qed

lemma render_entries_append:
  "render_entries env target (xs @ ys) fs =
     (case render_entries env target xs fs of
        (Inl e, fs1) \<Rightarrow> (Inl e, fs1)
      | (Inr u, fs1) \<Rightarrow> render_entries env target ys fs1)"
  by (induction env target xs fs rule: render_entries.induct) (auto split: sum.splits)

lemma render_entries_fails:
  "(rel, EFile text) \<in> set es \<Longrightarrow> substitute env text = Inl e0 \<Longrightarrow>
     \<exists>e fs'. render_entries env target es fs = (Inl e, fs')"
  by (induction env target es fs rule: render_entries.induct) (auto split: sum.splits)

lemma render_entries_untouched:
  assumes lf: "leaf_files es" and run: "render_entries env target es fs = (r, fs')"
    and f: "(rel, EFile text) \<in> set es" and sub: "substitute env text = Inl e0"
  shows "fs' (target @ rel) = fs (target @ rel)"
proof (rule ccontr)
  assume "fs' (target @ rel) \<noteq> fs (target @ rel)"
  from render_entries_changes [OF run this] show False
  proof
    assume "\<exists>rel'. (rel', EDir) \<in> set es \<and> prefix (target @ rel) (target @ rel')"
    then obtain rel' where d: "(rel', EDir) \<in> set es" "prefix rel rel'" by auto
    with lf f have "rel' = rel" by (blast dest: leaf_files_leaf)
    with d f leaf_files_same [OF lf, of rel EDir "EFile text"] show False by simp
  next
    assume "\<exists>rel' text' s. (rel', EFile text') \<in> set es \<and> substitute env text' = Inr s
        \<and> target @ rel = target @ rel'"
    then obtain text' s where t: "(rel, EFile text') \<in> set es" "substitute env text' = Inr s" by auto
    with f leaf_files_same [OF lf, of rel "EFile text'" "EFile text"] have "text' = text" by simp
    with t sub show False by simp
  qed
qed

lemma render_entries_written:
  "leaf_files es \<Longrightarrow> render_entries env target es fs = (Inr (), fs') \<Longrightarrow> (rel, EFile text) \<in> set es
     \<Longrightarrow> \<exists>s. substitute env text = Inr s \<and> fs' (target @ rel) = Some (File s)"
proof (induction env target es fs rule: render_entries.induct)
  case (1 env dst fs)
  then show ?case by simp
next
  case (2 env dst rel0 es fs)
  then show ?case by (auto split: sum.splits dest: leaf_files_tail)
next
  case (3 env dst rel0 text0 es fs)
  from "3.prems"(2) obtain s fs1 where s: "substitute env text0 = Inr s"
    and wr: "write_text (dst @ rel0) s fs = Inr fs1"
    and run: "render_entries env dst es fs1 = (Inr (), fs')"
    by (auto split: sum.splits)
  have lf: "leaf_files es" using "3.prems"(1) by (rule leaf_files_tail)
  show ?case
  proof (cases "(rel, EFile text) \<in> set es")
    case True
    from "3.IH" [OF s wr lf run True] show ?thesis .
  next
    case False
    with "3.prems"(3) have eq: "rel = rel0" "text = text0" by auto
    have "fs' (dst @ rel0) = fs1 (dst @ rel0)"
    proof (rule ccontr)
      assume "fs' (dst @ rel0) \<noteq> fs1 (dst @ rel0)"
      from render_entries_changes [OF run this]
      obtain rel' e' where r': "(rel', e') \<in> set es" "prefix rel0 rel'" by auto
      with leaf_files_leaf [OF "3.prems"(1), of rel0 text0 rel' e'] have "rel' = rel0" by simp
      with r' have "rel0 \<in> fst ` set es" by force
      with "3.prems"(1) show False by (simp add: leaf_files_def)
    qed
    with write_text_result [OF wr] s eq show ?thesis by simp
  qed
qed

lemma substitute_name: "substitute name_env ''name=${NAME}'' = Inr ''name=shop''"
  by (simp add: substitute_def idstart_def idchar_def name_env_def)

lemma substitute_port: "substitute name_env ''port=$PORT'' = Inl (KeyError ''PORT'')"
  by (simp add: substitute_def idstart_def idchar_def name_env_def)

lemma rglob_demo_templates: "rglob demo_templates =
   [([''a.conf''], EFile ''name=${NAME}''), ([''sub''], EDir), ([''sub'', ''b.conf''], EFile ''port=$PORT'')]"
  by (simp add: demo_templates_def)

lemma convert_fails:
  "k \<in> set (identifiers ts) \<Longrightarrow> env k = None \<Longrightarrow>
     \<exists>e. convert env ts = Inl e \<and>
       (e = ValueError \<or> (\<exists>k'. e = KeyError k' \<and> k' \<in> set (identifiers ts) \<and> env k' = None))"
proof (induction ts)
  case Nil
  then show ?case by simp
next
  case (Cons t ts)
  show ?case
  proof (cases t)
    case (Lit c)
    with Cons show ?thesis by (auto split: sum.splits)
  next
    case Escaped
    with Cons show ?thesis by (auto split: sum.splits)
  next
    case (Named n)
    show ?thesis
    proof (cases "env n")
      case None
      with Named show ?thesis by simp
    next
      case (Some v)
      with Named Cons.prems have "k \<in> set (identifiers ts)" by auto
      from Cons.IH [OF this Cons.prems(2)] Named Some show ?thesis by auto
    qed
  next
    case (Braced n)
    show ?thesis
    proof (cases "env n")
      case None
      with Braced show ?thesis by simp
    next
      case (Some v)
      with Braced Cons.prems have "k \<in> set (identifiers ts)" by auto
      from Cons.IH [OF this Cons.prems(2)] Braced Some show ?thesis by auto
    qed
  next
    case Invalid
    then show ?thesis by simp
  qed
qed

lemma convert_ValueError: "convert env ts = Inl ValueError \<Longrightarrow> Invalid \<in> set ts"
proof (induction ts)
  case Nil
  then show ?case by simp
next
  case (Cons t ts)
  then show ?case by (cases t) (auto split: sum.splits option.splits)
qed

lemma substitute_fails:
  assumes "k \<in> set (get_identifiers tmpl)" "env k = None"
  shows "\<exists>e. substitute env tmpl = Inl e \<and>
       (e = ValueError \<or> (\<exists>k'. e = KeyError k' \<and> k' \<in> set (get_identifiers tmpl) \<and> env k' = None))
       \<and> (is_valid tmpl \<longrightarrow> e \<noteq> ValueError)"
proof -
  from assms have "k \<in> set (identifiers (tokenize tmpl))" by (simp add: get_identifiers_def)
  from convert_fails [where env = env, OF this assms(2)] obtain e where
    e: "convert env (tokenize tmpl) = Inl e"
      "e = ValueError \<or> (\<exists>k'. e = KeyError k' \<and> k' \<in> set (identifiers (tokenize tmpl)) \<and> env k' = None)"
    by blast
  have "is_valid tmpl \<longrightarrow> e \<noteq> ValueError"
    using e(1) convert_ValueError [of env "tokenize tmpl"] by (auto simp: is_valid_def)
  with e show ?thesis by (auto simp: substitute_def get_identifiers_def)
qed

lemma leaf_files_prefix_list:
  assumes "leaf_files (xs @ ys)"
  shows "leaf_files xs"
proof -
  from assms have 1: "distinct (map fst xs)" by (simp add: leaf_files_def)
  from assms have 2: "\<forall>(p, e) \<in> set xs. p \<noteq> []" by (simp add: leaf_files_def)
  from assms have "\<forall>p x' q e'. (p, EFile x') \<in> set (xs @ ys) \<and> (q, e') \<in> set (xs @ ys) \<and> prefix p q \<longrightarrow> q = p"
    unfolding leaf_files_def by blast
  then have 3: "\<forall>p x' q e'. (p, EFile x') \<in> set xs \<and> (q, e') \<in> set xs \<and> prefix p q \<longrightarrow> q = p"
    by (metis Un_iff set_append)
  from 1 2 3 show ?thesis unfolding leaf_files_def by blast
qed

lemma render_entries_outside:
  assumes lf: "leaf_files es" and sub: "set xs \<subseteq> set es"
    and f: "(rel, EFile tmpl) \<in> set es" and out: "rel \<notin> fst ` set xs"
    and run: "render_entries env target xs fs0 = (r, fs1)"
  shows "fs1 (target @ rel) = fs0 (target @ rel)"
proof (rule ccontr)
  assume "fs1 (target @ rel) \<noteq> fs0 (target @ rel)"
  from render_entries_changes [OF run this] show False
  proof
    assume "\<exists>rel'. (rel', EDir) \<in> set xs \<and> prefix (target @ rel) (target @ rel')"
    then obtain rel' where d: "(rel', EDir) \<in> set xs" "prefix rel rel'" by auto
    with sub have "(rel', EDir) \<in> set es" by auto
    from leaf_files_leaf [OF lf f this d(2)] have "rel' = rel" .
    with d(1) out show False by force
  next
    assume "\<exists>rel' t s. (rel', EFile t) \<in> set xs \<and> substitute env t = Inr s
        \<and> target @ rel = target @ rel'"
    then obtain t where "(rel, EFile t) \<in> set xs" by auto
    with out show False by force
  qed
qed

lemma mkdirs_makes_dir:
  "mkdirs done rest fs = Inr fs' \<Longrightarrow> rest \<noteq> [] \<Longrightarrow> fs' (done @ rest) = Some Dir"
proof (induction rest arbitrary: "done" fs)
  case Nil
  then show ?case by simp
next
  case (Cons c cs)
  let ?d = "done @ [c]"
  show ?case
  proof (cases cs)
    case Nil
    with Cons.prems show ?thesis
      by (auto split: option.splits node.splits)
  next
    case (Cons c' cs')
    show ?thesis
    proof (cases "fs ?d")
      case None
      with Cons.prems have "mkdirs ?d cs (fs(?d \<mapsto> Dir)) = Inr fs'" by simp
      from Cons.IH [OF this] Cons show ?thesis by simp
    next
      case (Some n)
      with Cons.prems have "n = Dir" by (cases n) auto
      with Some Cons.prems have "mkdirs ?d cs fs = Inr fs'" by simp
      from Cons.IH [OF this] Cons show ?thesis by simp
    qed
  qed
qed

lemma mkdir_makes_dir: "mkdir_parents_exist_ok p fs = Inr fs' \<Longrightarrow> is_dir fs' p"
  using mkdirs_makes_dir [of "[]" p fs fs']
  by (cases "p = []") (auto simp: mkdir_parents_exist_ok_def is_dir_def stat_def)

lemma render_entries_dirs:
  "render_entries env target es fs = (Inr (), fs') \<Longrightarrow> (rel, EDir) \<in> set es
     \<Longrightarrow> is_dir fs' (target @ rel)"
proof (induction env target es fs rule: render_entries.induct)
  case (1 env dst fs)
  then show ?case by simp
next
  case (2 env dst rel0 es fs)
  from "2.prems"(1) obtain fs1 where mk: "mkdir_parents_exist_ok (dst @ rel0) fs = Inr fs1"
    and run: "render_entries env dst es fs1 = (Inr (), fs')"
    by (auto split: sum.splits)
  show ?case
  proof (cases "(rel, EDir) \<in> set es")
    case True
    from "2.IH" [OF mk run True] show ?thesis .
  next
    case False
    with "2.prems"(2) have "rel = rel0" by simp
    with mkdir_makes_dir [OF mk] have d: "is_dir fs1 (dst @ rel)" by simp
    show ?thesis
    proof (cases "dst @ rel = []")
      case True
      then show ?thesis by (simp add: is_dir_def stat_def)
    next
      case False
      with d have "fs1 (dst @ rel) = Some Dir" by (auto simp: is_dir_def stat_def split: if_splits)
      from render_entries_keeps_dir [OF run this] False show ?thesis
        by (simp add: is_dir_def stat_def)
    qed
  qed
next
  case (3 env dst rel0 tmpl es fs)
  then show ?case by (auto split: sum.splits)
qed

lemma render_entries_keeps_is_dir:
  "render_entries env target es fs = (r, fs') \<Longrightarrow> is_dir fs p \<Longrightarrow> is_dir fs' p"
  using render_entries_keeps_dir [of env target es fs r fs' p]
  by (cases "p = []") (auto simp: is_dir_def stat_def)

lemma identifiers_token:
  "k \<in> set (identifiers ts) \<longleftrightarrow> Named k \<in> set ts \<or> Braced k \<in> set ts"
proof (induction ts)
  case Nil
  then show ?case by simp
next
  case (Cons t ts)
  then show ?case by (cases t) auto
qed

lemma convert_first:
  assumes "Invalid \<notin> set pre"
    and "\<forall>n. Named n \<in> set pre \<or> Braced n \<in> set pre \<longrightarrow> env n \<noteq> None"
  shows "convert env (pre @ Invalid # post) = Inl ValueError"
    and "env k = None \<Longrightarrow> convert env (pre @ Named k # post) = Inl (KeyError k)"
    and "env k = None \<Longrightarrow> convert env (pre @ Braced k # post) = Inl (KeyError k)"
  using assms
proof (induction pre)
  case Nil
  { case 1 show ?case by simp }
  { case 2 then show ?case by simp }
  { case 3 then show ?case by simp }
next
  case (Cons t pre)
  { case 1 with Cons.IH(1) show ?case by (cases t) auto }
  { case 2 with Cons.IH(2) show ?case by (cases t) auto }
  { case 3 with Cons.IH(3) show ?case by (cases t) auto }
qed

lemma first_offender:
  assumes "k \<in> set (identifiers ts)" "env k = None"
  shows "\<exists>pre t post. ts = pre @ t # post \<and> Invalid \<notin> set pre
           \<and> (\<forall>n. Named n \<in> set pre \<or> Braced n \<in> set pre \<longrightarrow> env n \<noteq> None)
           \<and> (t = Invalid \<or> (\<exists>k'. (t = Named k' \<or> t = Braced k') \<and> env k' = None))"
proof -
  define P where "P = (\<lambda>t. t = Invalid \<or> (\<exists>k'. (t = Named k' \<or> t = Braced k') \<and> env k' = None))"
  from assms(1) have "Named k \<in> set ts \<or> Braced k \<in> set ts" by (simp only: identifiers_token)
  moreover have "P (Named k)" "P (Braced k)" using assms(2) by (simp_all add: P_def)
  ultimately have "\<exists>t \<in> set ts. P t" by blast
  then obtain pre t post where s: "ts = pre @ t # post" "P t" "\<forall>u \<in> set pre. \<not> P u"
    by (rule split_list_first_propE)
  have 1: "Invalid \<notin> set pre"
  proof
    assume "Invalid \<in> set pre"
    with s(3) have "\<not> P Invalid" by blast
    then show False by (simp add: P_def)
  qed
  have 2: "\<forall>n. Named n \<in> set pre \<or> Braced n \<in> set pre \<longrightarrow> env n \<noteq> None"
  proof (intro allI impI)
    fix n assume "Named n \<in> set pre \<or> Braced n \<in> set pre"
    with s(3) have "\<not> P (Named n) \<or> \<not> P (Braced n)" by blast
    then show "env n \<noteq> None" by (auto simp: P_def)
  qed
  from s(2) have 3: "t = Invalid \<or> (\<exists>k'. (t = Named k' \<or> t = Braced k') \<and> env k' = None)"
    by (simp only: P_def)
  from s(1) 1 2 3 show ?thesis by blast
qed


lemma substitute_first:
  assumes "k \<in> set (get_identifiers tmpl)" "env k = None"
  shows "\<exists>pre t post. tokenize tmpl = pre @ t # post \<and> Invalid \<notin> set pre
           \<and> (\<forall>n. Named n \<in> set pre \<or> Braced n \<in> set pre \<longrightarrow> env n \<noteq> None)
           \<and> (t = Invalid \<and> substitute env tmpl = Inl ValueError
                \<or> (\<exists>k'. (t = Named k' \<or> t = Braced k') \<and> env k' = None
                       \<and> k' \<in> set (get_identifiers tmpl)
                       \<and> substitute env tmpl = Inl (KeyError k')))"
proof -
  from assms(1) have "k \<in> set (identifiers (tokenize tmpl))" by (simp add: get_identifiers_def)
  from first_offender [where env = env, OF this assms(2)] obtain pre t post where
    s: "tokenize tmpl = pre @ t # post" and p: "Invalid \<notin> set pre"
      "\<forall>n. Named n \<in> set pre \<or> Braced n \<in> set pre \<longrightarrow> env n \<noteq> None"
    and t: "t = Invalid \<or> (\<exists>k'. (t = Named k' \<or> t = Braced k') \<and> env k' = None)"
    by blast
  note cf = convert_first [where env = env, OF p]
  from t have "t = Invalid \<and> substitute env tmpl = Inl ValueError
                \<or> (\<exists>k'. (t = Named k' \<or> t = Braced k') \<and> env k' = None
                       \<and> k' \<in> set (get_identifiers tmpl)
                       \<and> substitute env tmpl = Inl (KeyError k'))"
  proof
    assume "t = Invalid"
    with s cf(1) [of post] show ?thesis by (simp add: substitute_def)
  next
    assume "\<exists>k'. (t = Named k' \<or> t = Braced k') \<and> env k' = None"
    then obtain k' where k': "t = Named k' \<or> t = Braced k'" "env k' = None" by blast
    from k'(1) s have "Named k' \<in> set (tokenize tmpl) \<or> Braced k' \<in> set (tokenize tmpl)" by auto
    then have m: "k' \<in> set (get_identifiers tmpl)"
      by (simp add: get_identifiers_def identifiers_token)
    from k'(1) have "substitute env tmpl = Inl (KeyError k')"
    proof
      assume "t = Named k'"
      with s cf(2) [OF k'(2), of post] show ?thesis by (simp add: substitute_def)
    next
      assume "t = Braced k'"
      with s cf(3) [OF k'(2), of post] show ?thesis by (simp add: substitute_def)
    qed
    with k' m show ?thesis by blast
  qed
  with s p show ?thesis by blast
qed

text \<open>
  C4 (as amended).  When a template file references a placeholder that has no entry in
  the environment, rendering it fails and nothing is written to its destination path:
  \<open>copy_files_with_substitution\<close> ends with an exception and the destination path of that
  file is as before.  The exception of the substitution is decided by the first offending
  \<open>$\<close> of the template from the left, all placeholders before it being resolved: when it
  is a placeholder missing from the environment the exception is the \<open>KeyError\<close> naming
  this placeholder; when it is an invalid \<open>$\<close>, that is, an invalid \<open>$\<close> stands before every
  missing placeholder, the exception is a \<open>ValueError\<close>, which names no key.
\<close>

theorem copy_missing_placeholder:
  assumes wf: "wf_tree template_dir"
    and f: "(rel, EFile tmpl) \<in> set (rglob template_dir)"
    and k: "k \<in> set (get_identifiers tmpl)" "env k = None"
  shows "(\<exists>pre t post. tokenize tmpl = pre @ t # post \<and> Invalid \<notin> set pre
           \<and> (\<forall>n. Named n \<in> set pre \<or> Braced n \<in> set pre \<longrightarrow> env n \<noteq> None)
           \<and> (t = Invalid \<and> substitute env tmpl = Inl ValueError
                \<or> (\<exists>k'. (t = Named k' \<or> t = Braced k') \<and> env k' = None
                       \<and> k' \<in> set (get_identifiers tmpl)
                       \<and> substitute env tmpl = Inl (KeyError k'))))
       \<and> (\<exists>e fs'. copy_files_with_substitution env template_dir dst fs = (Inl e, fs')
            \<and> fs' (dst @ rel) = fs (dst @ rel))"
proof -
  from substitute_fails [where env = env, OF k] obtain e0 where e0: "substitute env tmpl = Inl e0"
    by blast
  have lf: "leaf_files (rglob template_dir)" using wf by (rule leaf_files_rglob)
  have "\<exists>e fs'. copy_files_with_substitution env template_dir dst fs = (Inl e, fs')
            \<and> fs' (dst @ rel) = fs (dst @ rel)"
  proof (cases "mkdir_parents_exist_ok dst fs")
    case (Inl e)
    then show ?thesis by (simp add: copy_files_with_substitution_def)
  next
    case (Inr fs0)
    from render_entries_fails [OF f e0, of dst fs0] obtain e fs' where
      run: "render_entries env dst (rglob template_dir) fs0 = (Inl e, fs')"
      by blast
    from lf f have "rel \<noteq> []" unfolding leaf_files_def by blast
    then have "\<not> prefix (dst @ rel) dst" by (auto simp: prefix_def)
    with mkdir_changes [OF Inr, of "dst @ rel"] have "fs0 (dst @ rel) = fs (dst @ rel)"
      by auto
    moreover from render_entries_untouched [OF lf run f e0]
    have "fs' (dst @ rel) = fs0 (dst @ rel)" .
    ultimately show ?thesis using Inr run by (simp add: copy_files_with_substitution_def)
  qed
  with substitute_first [where env = env, OF k] show ?thesis by (rule conjI)
qed

text \<open>
  C10.  Rendering a template set is not atomic.  When the templates before a template
  have been processed and the substitution of that template raises,
  \<open>copy_files_with_substitution\<close> ends with this exception in the file system reached so
  far: the destination directory exists, every directory created and every file rendered
  for the templates before the failing one is on disk, and the destination paths of the
  failing file and of the template files after it are as before.
\<close>

theorem copy_not_atomic:
  assumes wf: "wf_tree template_dir"
    and split: "rglob template_dir = pre @ (rel, EFile tmpl) # post"
    and mk: "mkdir_parents_exist_ok dst fs = Inr fs0"
    and pre: "render_entries env dst pre fs0 = (Inr (), fs1)"
    and sub: "substitute env tmpl = Inl e"
  shows "copy_files_with_substitution env template_dir dst fs = (Inl e, fs1)
       \<and> is_dir fs1 dst
       \<and> (\<forall>(r, x) \<in> set pre. case x of
              EDir \<Rightarrow> is_dir fs1 (dst @ r)
            | EFile t \<Rightarrow> (\<exists>s. substitute env t = Inr s \<and> fs1 (dst @ r) = Some (File s)))
       \<and> fs1 (dst @ rel) = fs (dst @ rel)
       \<and> (\<forall>(r, x) \<in> set post. \<forall>t. x = EFile t \<longrightarrow> fs1 (dst @ r) = fs (dst @ r))"
proof -
  have lf: "leaf_files (rglob template_dir)" using wf by (rule leaf_files_rglob)
  then have lfp: "leaf_files pre" unfolding split by (rule leaf_files_prefix_list)
  from lf have dist: "distinct (map fst (pre @ (rel, EFile tmpl) # post))"
    unfolding split leaf_files_def by blast
  have 1: "copy_files_with_substitution env template_dir dst fs = (Inl e, fs1)"
    by (simp add: copy_files_with_substitution_def mk split render_entries_append pre sub)
  have 2: "is_dir fs1 dst"
    using render_entries_keeps_is_dir [OF pre mkdir_makes_dir [OF mk]] .
  have 3: "\<forall>(r, x) \<in> set pre. case x of
              EDir \<Rightarrow> is_dir fs1 (dst @ r)
            | EFile t \<Rightarrow> (\<exists>s. substitute env t = Inr s \<and> fs1 (dst @ r) = Some (File s))"
  proof (clarify)
    fix r x assume m: "(r, x) \<in> set pre"
    show "case x of EDir \<Rightarrow> is_dir fs1 (dst @ r)
            | EFile t \<Rightarrow> (\<exists>s. substitute env t = Inr s \<and> fs1 (dst @ r) = Some (File s))"
    proof (cases x)
      case EDir
      with m render_entries_dirs [OF pre] show ?thesis by simp
    next
      case (EFile t)
      with m render_entries_written [OF lfp pre] show ?thesis by simp
    qed
  qed
  have unt: "\<And>r t. (r, EFile t) \<in> set (rglob template_dir) \<Longrightarrow> r \<notin> fst ` set pre
      \<Longrightarrow> fs1 (dst @ r) = fs (dst @ r)"
  proof -
    fix r t assume m: "(r, EFile t) \<in> set (rglob template_dir)" and o: "r \<notin> fst ` set pre"
    have s: "set pre \<subseteq> set (rglob template_dir)" unfolding split by auto
    from render_entries_outside [OF lf s m o pre]
    have a: "fs1 (dst @ r) = fs0 (dst @ r)" .
    from lf m have "r \<noteq> []" unfolding leaf_files_def by blast
    then have "\<not> prefix (dst @ r) dst" by (auto simp: prefix_def)
    with mkdir_changes [OF mk, of "dst @ r"] have "fs0 (dst @ r) = fs (dst @ r)"
      by auto
    with a show "fs1 (dst @ r) = fs (dst @ r)" by simp
  qed
  have 4: "fs1 (dst @ rel) = fs (dst @ rel)"
  proof (rule unt)
    show "(rel, EFile tmpl) \<in> set (rglob template_dir)" unfolding split by simp
    from dist show "rel \<notin> fst ` set pre" by auto
  qed
  have 5: "\<forall>(r, x) \<in> set post. \<forall>t. x = EFile t \<longrightarrow> fs1 (dst @ r) = fs (dst @ r)"
  proof (clarify)
    fix r t assume m: "(r, EFile t) \<in> set post"
    show "fs1 (dst @ r) = fs (dst @ r)"
    proof (rule unt)
      from m show "(r, EFile t) \<in> set (rglob template_dir)" unfolding split by simp
      from m have "r \<in> fst ` set post" by force
      with dist show "r \<notin> fst ` set pre" by auto
    qed
  qed
  from 1 2 3 4 5 show ?thesis by blast
qed

lemma wf_demo_templates: "wf_tree demo_templates"
  by (simp add: demo_templates_def)

theorem copy_missing_placeholder_witness:
  "substitute name_env ''port=$PORT'' = Inl (KeyError ''PORT'')
   \<and> (\<exists>e fs'. copy_files_with_substitution name_env demo_templates [''out''] empty_fs = (Inl e, fs')
          \<and> fs' ([''out''] @ [''sub'', ''b.conf'']) = empty_fs ([''out''] @ [''sub'', ''b.conf'']))"
proof -
  have m: "([''sub'', ''b.conf''], EFile ''port=$PORT'') \<in> set (rglob demo_templates)"
    by (simp add: rglob_demo_templates)
  have k: "''PORT'' \<in> set (get_identifiers ''port=$PORT'')"
    by (simp add: get_identifiers_def idstart_def idchar_def)
  have n: "name_env ''PORT'' = None"
    by (simp add: name_env_def)
  have valid: "Invalid \<notin> set (tokenize ''port=$PORT'')"
    by (simp add: idstart_def idchar_def)
  have ids: "set (get_identifiers ''port=$PORT'') = {''PORT''}"
    by (simp add: get_identifiers_def idstart_def idchar_def)
  note inst = copy_missing_placeholder [where env = name_env, OF wf_demo_templates m k n, of "[''out'']" empty_fs]
  from inst obtain pre t post where s: "tokenize ''port=$PORT'' = pre @ t # post"
    and c: "t = Invalid \<and> substitute name_env ''port=$PORT'' = Inl ValueError
            \<or> (\<exists>k'. (t = Named k' \<or> t = Braced k') \<and> name_env k' = None
                   \<and> k' \<in> set (get_identifiers ''port=$PORT'')
                   \<and> substitute name_env ''port=$PORT'' = Inl (KeyError k'))"
    by blast
  from s have "t \<in> set (tokenize ''port=$PORT'')" by simp
  with valid have "t \<noteq> Invalid" by blast
  with c obtain k' where "k' \<in> set (get_identifiers ''port=$PORT'')"
    "substitute name_env ''port=$PORT'' = Inl (KeyError k')" by blast
  with ids have 1: "substitute name_env ''port=$PORT'' = Inl (KeyError ''PORT'')" by simp
  from inst have 2: "\<exists>e fs'. copy_files_with_substitution name_env demo_templates [''out''] empty_fs = (Inl e, fs')
          \<and> fs' ([''out''] @ [''sub'', ''b.conf'']) = empty_fs ([''out''] @ [''sub'', ''b.conf''])"
    by (rule conjunct2)
  from 1 2 show ?thesis by (rule conjI)
qed

theorem substitute_invalid_first_counterexample:
  "''X'' \<in> set (get_identifiers ''$ ${X}'') \<and> no_env ''X'' = None
   \<and> substitute no_env ''$ ${X}'' = Inl ValueError"
  by (simp add: get_identifiers_def substitute_def idstart_def idchar_def no_env_def)

theorem copy_not_atomic_witness:
  "copy_files_with_substitution name_env demo_templates [''out''] empty_fs
     = (Inl (KeyError ''PORT''), demo_partial)
   \<and> is_dir demo_partial [''out'']
   \<and> demo_partial ([''out''] @ [''a.conf'']) = Some (File ''name=shop'')
   \<and> is_dir demo_partial ([''out''] @ [''sub''])
   \<and> demo_partial ([''out''] @ [''sub'', ''b.conf'']) = empty_fs ([''out''] @ [''sub'', ''b.conf''])"
proof -
  have s: "rglob demo_templates =
      [([''a.conf''], EFile ''name=${NAME}''), ([''sub''], EDir)]
      @ ([''sub'', ''b.conf''], EFile ''port=$PORT'') # []"
    by (simp add: rglob_demo_templates)
  have mk: "mkdir_parents_exist_ok [''out''] empty_fs = Inr (empty_fs([''out''] \<mapsto> Dir))"
    by (simp add: mkdir_parents_exist_ok_def empty_fs_def)
  have pre: "render_entries name_env [''out'']
      [([''a.conf''], EFile ''name=${NAME}''), ([''sub''], EDir)] (empty_fs([''out''] \<mapsto> Dir))
      = (Inr (), demo_partial)"
    by (simp add: substitute_name write_text_def stat_def mkdir_parents_exist_ok_def empty_fs_def demo_partial_def)
  from copy_not_atomic [OF wf_demo_templates s mk pre substitute_port]
  show ?thesis by (simp add: substitute_name)
qed

section \<open>Rendering into a fresh destination\<close>

lemma mkdirs_succeeds:
  "(\<forall>q. prefix q (done @ rest) \<and> strict_prefix done q \<longrightarrow> \<not> is_file fs q)
     \<Longrightarrow> \<exists>fs'. mkdirs done rest fs = Inr fs'"
proof (induction rest arbitrary: "done" fs)
  case Nil
  then show ?case by simp
next
  case (Cons c cs)
  let ?d = "done @ [c]"
  have d1: "prefix ?d (done @ c # cs)" by simp
  have d2: "strict_prefix done ?d" by (simp add: strict_prefix_def)
  have d3: "\<And>q. strict_prefix ?d q \<Longrightarrow> strict_prefix done q"
    by (auto simp: strict_prefix_def prefix_def)
  from Cons.prems d1 d2 have nf: "\<not> is_file fs ?d" by blast
  show ?case
  proof (cases "fs ?d")
    case None
    have "\<forall>q. prefix q (?d @ cs) \<and> strict_prefix ?d q \<longrightarrow> \<not> is_file (fs(?d \<mapsto> Dir)) q"
      using Cons.prems d3 by (auto simp: is_file_def stat_def)
    from Cons.IH [OF this] obtain fs' where "mkdirs ?d cs (fs(?d \<mapsto> Dir)) = Inr fs'" by blast
    with None have "mkdirs done (c # cs) fs = Inr fs'" by simp
    then show ?thesis by blast
  next
    case (Some n)
    with nf have n: "n = Dir" by (cases n) (auto simp: is_file_def stat_def)
    have "\<forall>q. prefix q (?d @ cs) \<and> strict_prefix ?d q \<longrightarrow> \<not> is_file fs q"
      using Cons.prems d3 by auto
    from Cons.IH [OF this] obtain fs' where "mkdirs ?d cs fs = Inr fs'" by blast
    with Some n have "mkdirs done (c # cs) fs = Inr fs'" by simp
    then show ?thesis by blast
  qed
qed

lemma step_prefix:
  assumes "prefix q (done @ c # cs)" "strict_prefix done q" "q \<noteq> done @ [c]"
  shows "strict_prefix (done @ [c]) q"
proof -
  from assms(2) obtain zs where zs: "q = done @ zs" "zs \<noteq> []"
    by (auto simp: strict_prefix_def prefix_def)
  with assms(1) have "prefix zs (c # cs)" by simp
  with zs(2) obtain zs' where zs': "zs = c # zs'" by (cases zs) auto
  with zs assms(3) have "zs' \<noteq> []" by auto
  with zs zs' show ?thesis by (simp add: strict_prefix_def)
qed

lemma mkdirs_all_dirs:
  "mkdirs done rest fs = Inr fs' \<Longrightarrow> prefix q (done @ rest) \<Longrightarrow> strict_prefix done q
     \<Longrightarrow> fs' q = Some Dir"
proof (induction rest arbitrary: "done" fs)
  case Nil
  then show ?case by (auto simp: strict_prefix_def)
next
  case (Cons c cs)
  let ?d = "done @ [c]"
  from Cons.prems(1) obtain fs1 where fs1: "mkdirs ?d cs fs1 = Inr fs'" "fs1 ?d = Some Dir"
    by (cases "fs ?d") (auto split: node.splits)
  show ?case
  proof (cases "q = ?d")
    case True
    have "fs' ?d = fs1 ?d"
      using mkdirs_changes [OF fs1(1), of ?d] fs1(2) by auto
    with True fs1(2) show ?thesis by simp
  next
    case False
    from Cons.prems(2) have 1: "prefix q (?d @ cs)" by simp
    from step_prefix [OF Cons.prems(2,3) False] have 2: "strict_prefix ?d q" .
    from Cons.IH [OF fs1(1) 1 2] show ?thesis .
  qed
qed

lemma mkdir_all_dirs:
  "mkdir_parents_exist_ok p fs = Inr fs' \<Longrightarrow> prefix q p \<Longrightarrow> q \<noteq> [] \<Longrightarrow> fs' q = Some Dir"
  using mkdirs_all_dirs [of "[]" p fs fs' q]
  by (auto simp: mkdir_parents_exist_ok_def strict_prefix_def)

lemma mkdir_succeeds:
  "(\<forall>q. prefix q p \<longrightarrow> \<not> is_file fs q) \<Longrightarrow> \<exists>fs'. mkdir_parents_exist_ok p fs = Inr fs'"
  using mkdirs_succeeds [of "[]" p fs] by (auto simp: mkdir_parents_exist_ok_def)

lemma mkdir_fresh_child:
  assumes ne: "p \<noteq> []"
    and par: "\<forall>q. prefix q (butlast p) \<and> q \<noteq> [] \<longrightarrow> fs q = Some Dir"
    and none: "fs p = None"
  shows "mkdir_parents_exist_ok p fs = Inr (fs(p \<mapsto> Dir))"
proof -
  have pre: "\<And>q. prefix q p \<Longrightarrow> q = p \<or> prefix q (butlast p)"
    using ne by (metis append_butlast_last_id prefix_snoc)
  have "\<forall>q. prefix q p \<longrightarrow> \<not> is_file fs q"
  proof (intro allI impI)
    fix q assume "prefix q p"
    with pre have "q = p \<or> prefix q (butlast p)" by blast
    then show "\<not> is_file fs q"
    proof
      assume "q = p" with none ne show ?thesis by (simp add: is_file_def stat_def)
    next
      assume "prefix q (butlast p)"
      with par show ?thesis by (cases "q = []") (auto simp: is_file_def stat_def)
    qed
  qed
  from mkdir_succeeds [OF this] obtain fs' where mk: "mkdir_parents_exist_ok p fs = Inr fs'"
    by blast
  have "fs' = fs(p \<mapsto> Dir)"
  proof
    fix q
    show "fs' q = (fs(p \<mapsto> Dir)) q"
    proof (cases "q = p")
      case True
      with mkdir_all_dirs [OF mk, of p] ne show ?thesis by simp
    next
      case False
      from mkdir_changes [OF mk, of q]
      have "fs' q = fs q \<or> (fs q = None \<and> prefix q p \<and> q \<noteq> [])" by blast
      then show ?thesis
      proof
        assume "fs' q = fs q" with False show ?thesis by simp
      next
        assume a: "fs q = None \<and> prefix q p \<and> q \<noteq> []"
        with pre False have "prefix q (butlast p)" by blast
        with par a show ?thesis by auto
      qed
    qed
  qed
  with mk show ?thesis by simp
qed

lemma render_plan:
  assumes "ok_from D es"
    and "\<forall>d \<in> D. \<forall>q. prefix q (dst @ d) \<and> q \<noteq> [] \<longrightarrow> fs q = Some Dir"
    and "\<forall>(r, e) \<in> set es. fs (dst @ r) = None"
  shows "render_entries env dst es fs = (fst (plan env es), place dst (snd (plan env es)) fs)"
  using assms
proof (induction es arbitrary: D fs)
  case Nil
  then show ?case by simp
next
  case (Cons a es)
  obtain r e where a: "a = (r, e)" by (cases a)
  from Cons.prems(1) a have ne: "r \<noteq> []" and par: "butlast r \<in> D" and fresh: "r \<notin> fst ` set es"
    and ok: "ok_from (if e = EDir then insert r D else D) es"
    by auto
  from Cons.prems(3) a have none: "fs (dst @ r) = None" by auto
  have bl: "butlast (dst @ r) = dst @ butlast r" using ne by (simp add: butlast_append)
  have pardirs: "\<forall>q. prefix q (butlast (dst @ r)) \<and> q \<noteq> [] \<longrightarrow> fs q = Some Dir"
    unfolding bl using Cons.prems(2) par by blast
  have clear: "\<And>n. \<forall>(r', e') \<in> set es. (fs(dst @ r \<mapsto> n)) (dst @ r') = None"
    using Cons.prems(3) fresh by force
  have inv: "\<And>n. \<forall>d \<in> D. \<forall>q. prefix q (dst @ d) \<and> q \<noteq> [] \<longrightarrow> (fs(dst @ r \<mapsto> n)) q = Some Dir"
    using Cons.prems(2) none by auto
  show ?case
  proof (cases e)
    case EDir
    have mk: "mkdir_parents_exist_ok (dst @ r) fs = Inr (fs(dst @ r \<mapsto> Dir))"
      using ne pardirs none by (intro mkdir_fresh_child) auto
    have inv': "\<forall>d \<in> insert r D. \<forall>q. prefix q (dst @ d) \<and> q \<noteq> [] \<longrightarrow> (fs(dst @ r \<mapsto> Dir)) q = Some Dir"
    proof (intro ballI allI impI)
      fix d q assume d: "d \<in> insert r D" and q: "prefix q (dst @ d) \<and> q \<noteq> []"
      show "(fs(dst @ r \<mapsto> Dir)) q = Some Dir"
      proof (cases "d = r")
        case False
        with d inv [of Dir] q show ?thesis by blast
      next
        case True
        show ?thesis
        proof (cases "q = dst @ r")
          case True
          then show ?thesis by simp
        next
          case False
          with q \<open>d = r\<close> have "prefix q (butlast (dst @ r))"
            by (metis append_butlast_last_id append_is_Nil_conv ne prefix_snoc)
          with pardirs q False show ?thesis by simp
        qed
      qed
    qed
    from ok EDir have ok': "ok_from (insert r D) es" by simp
    have ih: "render_entries env dst es (fs(dst @ r \<mapsto> Dir)) =
        (fst (plan env es), place dst (snd (plan env es)) (fs(dst @ r \<mapsto> Dir)))"
      using ok' inv' clear [of Dir] by (rule Cons.IH)
    have step: "render_entries env dst (a # es) fs = render_entries env dst es (fs(dst @ r \<mapsto> Dir))"
      unfolding a EDir using mk by simp
    have pl: "plan env (a # es) = (fst (plan env es), (r, Dir) # snd (plan env es))"
      unfolding a EDir by (simp split: prod.splits)
    show ?thesis unfolding step pl ih by simp
  next
    case (EFile t)
    show ?thesis
    proof (cases "substitute env t")
      case (Inl err)
      with a EFile show ?thesis by simp
    next
      case (Inr s)
      have "stat fs (butlast (dst @ r)) = Some Dir"
        using pardirs by (cases "butlast (dst @ r) = []") (auto simp: stat_def)
      with none ne have wr: "write_text (dst @ r) s fs = Inr (fs(dst @ r \<mapsto> File s))"
        by (simp add: write_text_def stat_def)
      from ok EFile have ok': "ok_from D es" by simp
      have ih: "render_entries env dst es (fs(dst @ r \<mapsto> File s)) =
          (fst (plan env es), place dst (snd (plan env es)) (fs(dst @ r \<mapsto> File s)))"
        using ok' inv [of "File s"] clear [of "File s"] by (rule Cons.IH)
      have step: "render_entries env dst (a # es) fs = render_entries env dst es (fs(dst @ r \<mapsto> File s))"
        unfolding a EFile using wr Inr by simp
      have pl: "plan env (a # es) = (fst (plan env es), (r, File s) # snd (plan env es))"
        unfolding a EFile using Inr by (simp split: prod.splits)
      show ?thesis unfolding step pl ih by simp
    qed
  qed
qed

lemma ok_mono: "ok_from D es \<Longrightarrow> D \<subseteq> D' \<Longrightarrow> ok_from D' es"
proof (induction es arbitrary: D D')
  case Nil
  then show ?case by simp
next
  case (Cons a es)
  obtain r e where a: "a = (r, e)" by (cases a)
  let ?D1 = "if e = EDir then insert r D else D"
  let ?D1' = "if e = EDir then insert r D' else D'"
  from Cons.prems a have 1: "r \<noteq> []" "butlast r \<in> D'" "r \<notin> fst ` set es" and 2: "ok_from ?D1 es"
    by auto
  from Cons.prems(2) have "?D1 \<subseteq> ?D1'" by auto
  from Cons.IH [OF 2 this] 1 a show ?case by simp
qed

lemma ok_append:
  "ok_from D xs \<Longrightarrow> ok_from (D \<union> {r. (r, EDir) \<in> set xs}) ys
     \<Longrightarrow> fst ` set xs \<inter> fst ` set ys = {} \<Longrightarrow> ok_from D (xs @ ys)"
proof (induction xs arbitrary: D)
  case Nil
  then show ?case by simp
next
  case (Cons a xs)
  obtain r e where a: "a = (r, e)" by (cases a)
  let ?D1 = "if e = EDir then insert r D else D"
  from Cons.prems(1) a have 1: "r \<noteq> []" "butlast r \<in> D" "r \<notin> fst ` set xs" and 2: "ok_from ?D1 xs"
    by auto
  from Cons.prems(3) a have 3: "r \<notin> fst ` set ys" and 4: "fst ` set xs \<inter> fst ` set ys = {}"
    by auto
  have "D \<union> {r'. (r', EDir) \<in> set (a # xs)} \<subseteq> ?D1 \<union> {r'. (r', EDir) \<in> set xs}"
    using a by auto
  with Cons.prems(2) have 5: "ok_from (?D1 \<union> {r'. (r', EDir) \<in> set xs}) ys"
    by (rule ok_mono)
  from Cons.IH [OF 2 5 4] 1 3 a show ?case by (simp add: image_Un)
qed

lemma ok_map:
  "ok_from D es \<Longrightarrow> ok_from ((#) n ` D) (map (\<lambda>(p, e). (n # p, e)) es)"
proof (induction es arbitrary: D)
  case Nil
  then show ?case by simp
next
  case (Cons a es)
  obtain r e where a: "a = (r, e)" by (cases a)
  let ?D1 = "if e = EDir then insert r D else D"
  from Cons.prems a have 1: "r \<noteq> []" "butlast r \<in> D" "r \<notin> fst ` set es" and 2: "ok_from ?D1 es"
    by auto
  have 3: "n # r \<notin> fst ` set (map (\<lambda>(p, e). (n # p, e)) es)"
    using 1(3) by force
  have 4: "(if e = EDir then insert (n # r) ((#) n ` D) else (#) n ` D) = (#) n ` ?D1"
    by simp
  from Cons.IH [OF 2] have "ok_from ((#) n ` ?D1) (map (\<lambda>(p, e). (n # p, e)) es)" .
  with 1 3 a show ?case unfolding 4 [symmetric] by simp
qed

lemma ok_tops:
  "[] \<in> D \<Longrightarrow> distinct (map fst cs) \<Longrightarrow> ok_from D (map (\<lambda>(n, t). ([n], kind t)) cs)"
proof (induction cs arbitrary: D)
  case Nil
  then show ?case by simp
next
  case (Cons a cs)
  obtain n c where a: "a = (n, c)" by (cases a)
  from Cons.prems(2) a have d: "n \<notin> fst ` set cs" "distinct (map fst cs)" by auto
  have 1: "[n] \<notin> fst ` set (map (\<lambda>(n, t). ([n], kind t)) cs)"
    using d(1) by force
  have "ok_from (if kind c = EDir then insert [n] D else D) (map (\<lambda>(n, t). ([n], kind t)) cs)"
    using Cons.prems(1) d(2) by (intro Cons.IH) auto
  with 1 Cons.prems(1) a show ?case by simp
qed

lemma ok_belows:
  "distinct (map fst cs) \<Longrightarrow> (\<forall>(n, c) \<in> set cs. ok_from {[]} (rglob c))
     \<Longrightarrow> (\<forall>(n, c) \<in> set cs. rglob c \<noteq> [] \<longrightarrow> [n] \<in> D)
     \<Longrightarrow> ok_from D (concat (map (\<lambda>(n, t). map (\<lambda>(p, e). (n # p, e)) (rglob t)) cs))"
proof (induction cs arbitrary: D)
  case Nil
  then show ?case by simp
next
  case (Cons a cs)
  obtain n c where a: "a = (n, c)" by (cases a)
  let ?below = "\<lambda>(n, t). map (\<lambda>(p, e). (n # p, e)) (rglob t)"
  let ?xs = "map (\<lambda>(p, e). (n # p, e)) (rglob c)"
  let ?ys = "concat (map ?below cs)"
  from Cons.prems(1) a have d: "n \<notin> fst ` set cs" "distinct (map fst cs)" by auto
  have 1: "ok_from D ?xs"
  proof (cases "rglob c = []")
    case True
    then show ?thesis by simp
  next
    case False
    with Cons.prems(3) a have "[n] \<in> D" by auto
    moreover from Cons.prems(2) a have "ok_from {[]} (rglob c)" by auto
    then have "ok_from ((#) n ` {[]}) ?xs" by (rule ok_map)
    ultimately show ?thesis by (auto elim: ok_mono)
  qed
  have 2: "ok_from (D \<union> {r. (r, EDir) \<in> set ?xs}) ?ys"
    using d(2) Cons.prems(2,3) by (intro Cons.IH) auto
  have 3: "fst ` set ?xs \<inter> fst ` set ?ys = {}"
    using d(1) by (auto simp: image_iff)
  from ok_append [OF 1 2 3] a show ?case by simp
qed

lemma ok_rglob: "wf_tree t \<Longrightarrow> ok_from {[]} (rglob t)"
proof (induction t)
  case (TFile x)
  then show ?case by simp
next
  case (TDir cs)
  from TDir.prems have d: "distinct (map fst cs)" and w: "\<And>n c. (n, c) \<in> set cs \<Longrightarrow> wf_tree c"
    by auto
  let ?tops = "map (\<lambda>(n, t). ([n], kind t)) cs"
  let ?belows = "concat (map (\<lambda>(n, t). map (\<lambda>(p, e). (n # p, e)) (rglob t)) cs)"
  have ih: "\<forall>(n, c) \<in> set cs. ok_from {[]} (rglob c)"
  proof (clarify)
    fix n c assume m: "(n, c) \<in> set cs"
    from TDir.IH [of "(n, c)" c] m w [OF m] show "ok_from {[]} (rglob c)" by simp
  qed
  have 1: "ok_from {[]} ?tops" using d by (intro ok_tops) auto
  have top_dir: "\<And>n c. (n, c) \<in> set cs \<Longrightarrow> rglob c \<noteq> [] \<Longrightarrow> ([n], EDir) \<in> set ?tops"
  proof -
    fix n c assume m: "(n, c) \<in> set cs" and ne: "rglob c \<noteq> []"
    from ne have "kind c = EDir" by (cases c) auto
    with m show "([n], EDir) \<in> set ?tops" by force
  qed
  then have "\<forall>(n, c) \<in> set cs. rglob c \<noteq> [] \<longrightarrow> [n] \<in> {[]} \<union> {r. (r, EDir) \<in> set ?tops}"
    by blast
  with d ih have 2: "ok_from ({[]} \<union> {r. (r, EDir) \<in> set ?tops}) ?belows"
    by (rule ok_belows)
  have 3: "fst ` set ?tops \<inter> fst ` set ?belows = {}"
    by (auto dest: rglob_nonempty)
  from ok_append [OF 1 2 3] show ?case by simp
qed

lemma place_cong:
  "fs1 (d1 @ q) = fs2 (d2 @ q) \<Longrightarrow> place d1 ws fs1 (d1 @ q) = place d2 ws fs2 (d2 @ q)"
proof (induction ws arbitrary: fs1 fs2)
  case Nil
  then show ?case by simp
next
  case (Cons a ws)
  obtain r n where a: "a = (r, n)" by (cases a)
  have "(fs1(d1 @ r \<mapsto> n)) (d1 @ q) = (fs2(d2 @ r \<mapsto> n)) (d2 @ q)"
    using Cons.prems by simp
  then show ?case unfolding a place.simps by (rule Cons.IH)
qed

lemma copy_fresh:
  assumes wf: "wf_tree t" and fr: "fresh dst fs"
  shows "\<exists>fs0. copy_files_with_substitution env t dst fs
           = (fst (plan env (rglob t)), place dst (snd (plan env (rglob t))) fs0)
         \<and> fs0 dst = Some Dir \<and> (\<forall>q. q \<noteq> [] \<longrightarrow> fs0 (dst @ q) = None)"
proof -
  from fr have ne: "dst \<noteq> []" and none: "\<And>q. prefix dst q \<Longrightarrow> fs q = None"
    and nf: "\<forall>q. prefix q dst \<longrightarrow> \<not> is_file fs q"
    by (auto simp: fresh_def)
  from mkdir_succeeds [OF nf] obtain fs0 where mk: "mkdir_parents_exist_ok dst fs = Inr fs0"
    by blast
  have dirs: "\<forall>d \<in> {[]}. \<forall>q. prefix q (dst @ d) \<and> q \<noteq> [] \<longrightarrow> fs0 q = Some Dir"
    using mkdir_all_dirs [OF mk] by simp
  have below: "\<And>q. q \<noteq> [] \<Longrightarrow> fs0 (dst @ q) = None"
  proof -
    fix q :: path assume "q \<noteq> []"
    then have "\<not> prefix (dst @ q) dst" by (auto simp: prefix_def)
    with mkdir_changes [OF mk, of "dst @ q"] have "fs0 (dst @ q) = fs (dst @ q)" by auto
    with none [of "dst @ q"] show "fs0 (dst @ q) = None" by simp
  qed
  have clear: "\<forall>(r, e) \<in> set (rglob t). fs0 (dst @ r) = None"
  proof (clarify)
    fix r e assume "(r, e) \<in> set (rglob t)"
    then have "r \<noteq> []" by (rule rglob_nonempty)
    then show "fs0 (dst @ r) = None" by (rule below)
  qed
  from render_plan [OF ok_rglob [OF wf] dirs clear, of env] mk
  have "copy_files_with_substitution env t dst fs
           = (fst (plan env (rglob t)), place dst (snd (plan env (rglob t))) fs0)"
    by (simp add: copy_files_with_substitution_def)
  moreover from mkdir_all_dirs [OF mk, of dst] ne have "fs0 dst = Some Dir" by simp
  ultimately show ?thesis using below by blast
qed

lemma convert_ok:
  "Invalid \<notin> set ts \<Longrightarrow> \<forall>k \<in> set (identifiers ts). env k \<noteq> None \<Longrightarrow> \<exists>s. convert env ts = Inr s"
proof (induction ts)
  case Nil
  then show ?case by simp
next
  case (Cons t ts)
  then show ?case by (cases t) auto
qed

lemma substitute_ok:
  "is_valid x \<Longrightarrow> \<forall>k \<in> set (get_identifiers x). env k \<noteq> None \<Longrightarrow> \<exists>s. substitute env x = Inr s"
  unfolding is_valid_def get_identifiers_def substitute_def
  by (rule convert_ok) auto

lemma plan_ok:
  "(\<forall>(r, e) \<in> set es. \<forall>x. e = EFile x \<longrightarrow> (\<exists>s. substitute env x = Inr s))
     \<Longrightarrow> fst (plan env es) = Inr ()"
proof (induction env es rule: plan.induct)
  case (1 env)
  then show ?case by simp
next
  case (2 env r es)
  then show ?case by (simp add: case_prod_beta)
next
  case (3 env r t es)
  from "3.prems" obtain s where s: "substitute env t = Inr s" by auto
  from "3.prems" have "\<forall>(r, e) \<in> set es. \<forall>x. e = EFile x \<longrightarrow> (\<exists>s. substitute env x = Inr s)"
    by auto
  from "3.IH" [OF s this] s show ?case by (simp add: case_prod_beta)
qed

lemma renders_plan: "renders env t \<Longrightarrow> fst (plan env (rglob t)) = Inr ()"
proof (rule plan_ok, clarify)
  fix r x assume "renders env t" "(r, EFile x) \<in> set (rglob t)"
  then have "case EFile x of EDir \<Rightarrow> True
        | EFile x \<Rightarrow> is_valid x \<and> (\<forall>k \<in> set (get_identifiers x). env k \<noteq> None)"
    unfolding renders_def by blast
  then have "is_valid x \<and> (\<forall>k \<in> set (get_identifiers x). env k \<noteq> None)"
    by simp
  then show "\<exists>s. substitute env x = Inr s" by (auto intro: substitute_ok)
qed

text \<open>
  C9.  Rendering a template set twice with the same environment, each time into a fresh
  destination, gives the same outcome and the same contents: below the two destinations
  the two file systems agree path by path.  When the environment resolves every
  placeholder of the (valid) templates, both runs succeed.
\<close>

theorem render_twice_identical:
  assumes "wf_tree t" "fresh d1 fs1" "fresh d2 fs2"
  shows "fst (copy_files_with_substitution env t d1 fs1) = fst (copy_files_with_substitution env t d2 fs2)
       \<and> (\<forall>q. snd (copy_files_with_substitution env t d1 fs1) (d1 @ q)
                = snd (copy_files_with_substitution env t d2 fs2) (d2 @ q))
       \<and> (renders env t \<longrightarrow> fst (copy_files_with_substitution env t d1 fs1) = Inr ())"
proof -
  from copy_fresh [OF assms(1,2), of env] obtain a where
    a: "copy_files_with_substitution env t d1 fs1
           = (fst (plan env (rglob t)), place d1 (snd (plan env (rglob t))) a)"
      "a d1 = Some Dir" "\<And>q. q \<noteq> [] \<Longrightarrow> a (d1 @ q) = None"
    by blast
  from copy_fresh [OF assms(1,3), of env] obtain b where
    b: "copy_files_with_substitution env t d2 fs2
           = (fst (plan env (rglob t)), place d2 (snd (plan env (rglob t))) b)"
      "b d2 = Some Dir" "\<And>q. q \<noteq> [] \<Longrightarrow> b (d2 @ q) = None"
    by blast
  have base: "\<And>q. a (d1 @ q) = b (d2 @ q)"
  proof -
    fix q :: path
    show "a (d1 @ q) = b (d2 @ q)"
      using a(2) a(3) [of q] b(2) b(3) [of q] by (cases "q = []") simp_all
  qed
  have "\<forall>q. place d1 (snd (plan env (rglob t))) a (d1 @ q) = place d2 (snd (plan env (rglob t))) b (d2 @ q)"
    using base by (blast intro: place_cong)
  with a(1) b(1) renders_plan [of env t] show ?thesis by simp
qed

lemma fresh_out: "fresh [''out''] empty_fs"
  by (auto simp: fresh_def empty_fs_def is_file_def stat_def)

lemma fresh_tmp: "fresh [''tmp'', ''new''] other_fs"
  by (auto simp: fresh_def other_fs_def is_file_def stat_def prefix_Cons)

lemma renders_demo: "renders both_env demo_templates"
  by (simp add: renders_def rglob_demo_templates is_valid_def get_identifiers_def
      idstart_def idchar_def both_env_def)

theorem render_twice_identical_witness:
  "fst (copy_files_with_substitution both_env demo_templates [''out''] empty_fs) = Inr ()
   \<and> fst (copy_files_with_substitution both_env demo_templates [''tmp'', ''new''] other_fs) = Inr ()
   \<and> (\<forall>q. snd (copy_files_with_substitution both_env demo_templates [''out''] empty_fs) ([''out''] @ q)
          = snd (copy_files_with_substitution both_env demo_templates [''tmp'', ''new''] other_fs)
              ([''tmp'', ''new''] @ q))"
proof -
  note r = render_twice_identical [OF wf_demo_templates fresh_out fresh_tmp, of both_env]
  from r renders_demo
  have 1: "fst (copy_files_with_substitution both_env demo_templates [''out''] empty_fs) = Inr ()"
    by blast
  from r have "fst (copy_files_with_substitution both_env demo_templates [''out''] empty_fs)
      = fst (copy_files_with_substitution both_env demo_templates [''tmp'', ''new''] other_fs)"
    by blast
  with 1 have 2: "fst (copy_files_with_substitution both_env demo_templates [''tmp'', ''new''] other_fs) = Inr ()"
    by simp
  from r 1 2 show ?thesis by blast
qed

section \<open>Properties of build\<close>


lemma demo_env:
  "build_env demo_webapp (os_environ demo_install) ''TARGET_NAME'' = Some ''shop''"
  "build_env demo_webapp (os_environ demo_install) ''DOMAIN_NAME'' = Some ''example.org''"
  by (simp_all add: build_env_def temp_env_def demo_webapp_def demo_install_def upper_char_def)

lemma demo_subst:
  "substitute (build_env demo_webapp (os_environ demo_install))
     ''services: {${TARGET_NAME}: {build: ., ports: null}}'' = Inr ''services: {shop: {build: ., ports: null}}''"
  "substitute (build_env demo_webapp (os_environ demo_install))
     ''server_name ${DOMAIN_NAME};'' = Inr ''server_name example.org;''"
  by (simp_all add: substitute_def idstart_def idchar_def demo_env)

text \<open>
  C6 (as amended).  When the app subdirectory of the build directory exists, as every
  earlier build leaves it, \<open>build\<close> without \<open>clean\<close> fails before anything is written: the
  file system, and with it the existing build directory, is unchanged.  When the source
  tree of the target exists the failure is the fatal exit that tells the caller to build
  with \<open>clean\<close>.  The check is on the app subdirectory, not on the build directory itself.
\<close>

theorem build_without_clean:
  assumes "stat fs (app_build_dir w) \<noteq> None"
  shows "\<exists>e. build I w False fs = (Inl e, fs)
           \<and> (stat fs (butlast (target_src_dir w)) = Some Dir \<longrightarrow> e = SystemExit 1)"
  using assms
  by (auto simp: build_def copytree_def split: option.splits node.splits)

lemma place_other: "\<forall>(r, n) \<in> set ws. q \<noteq> dst @ r \<Longrightarrow> place dst ws fs q = fs q"
proof (induction ws arbitrary: fs)
  case Nil
  then show ?case by simp
next
  case (Cons a ws)
  obtain r n where a: "a = (r, n)" by (cases a)
  from Cons.prems a have ne: "q \<noteq> dst @ r" and rest: "\<forall>(r, n) \<in> set ws. q \<noteq> dst @ r" by auto
  have "place dst (a # ws) fs q = place dst ws (fs(dst @ r \<mapsto> n)) q" unfolding a by simp
  also have "\<dots> = (fs(dst @ r \<mapsto> n)) q" using rest by (rule Cons.IH)
  also have "\<dots> = fs q" using ne by simp
  finally show ?case .
qed

lemma place_at:
  "distinct (map fst ws) \<Longrightarrow> (r, n) \<in> set ws \<Longrightarrow> place dst ws fs (dst @ r) = Some n"
proof (induction ws arbitrary: fs)
  case Nil
  then show ?case by simp
next
  case (Cons a ws)
  obtain r0 n0 where a: "a = (r0, n0)" by (cases a)
  from Cons.prems(1) a have d: "r0 \<notin> fst ` set ws" "distinct (map fst ws)" by auto
  have step: "place dst (a # ws) fs (dst @ r) = place dst ws (fs(dst @ r0 \<mapsto> n0)) (dst @ r)"
    unfolding a by simp
  show ?case
  proof (cases "(r, n) \<in> set ws")
    case True
    from Cons.IH [OF d(2) True] step show ?thesis by simp
  next
    case False
    with Cons.prems(2) a have eq: "r = r0" "n = n0" by auto
    have "\<forall>(r', n') \<in> set ws. dst @ r \<noteq> dst @ r'" using d(1) eq by force
    then have "place dst ws (fs(dst @ r0 \<mapsto> n0)) (dst @ r) = (fs(dst @ r0 \<mapsto> n0)) (dst @ r)"
      by (rule place_other)
    with step eq show ?thesis by simp
  qed
qed

lemma plan_nodes:
  "(\<forall>(r, e) \<in> set es. \<forall>x. e = EFile x \<longrightarrow> (\<exists>s. substitute env x = Inr s))
     \<Longrightarrow> plan env es = (Inr (), map (\<lambda>(r, e). (r, node_of env e)) es)"
proof (induction env es rule: plan.induct)
  case (1 env)
  then show ?case by simp
next
  case (2 env r es)
  then show ?case by simp
next
  case (3 env r t es)
  from "3.prems" obtain s where s: "substitute env t = Inr s" by auto
  from "3.prems" have "\<forall>(r, e) \<in> set es. \<forall>x. e = EFile x \<longrightarrow> (\<exists>s. substitute env x = Inr s)"
    by auto
  from "3.IH" [OF s this] s show ?case by simp
qed

lemma renders_files:
  assumes "renders env t" "(r, EFile x) \<in> set (rglob t)"
  shows "\<exists>s. substitute env x = Inr s"
proof -
  from assms have "case EFile x of EDir \<Rightarrow> True
        | EFile x \<Rightarrow> is_valid x \<and> (\<forall>k \<in> set (get_identifiers x). env k \<noteq> None)"
    unfolding renders_def by blast
  then have "is_valid x \<and> (\<forall>k \<in> set (get_identifiers x). env k \<noteq> None)" by simp
  then show ?thesis by (auto intro: substitute_ok)
qed

lemma renders_nodes:
  assumes "renders env t"
  shows "plan env (rglob t) = (Inr (), map (\<lambda>(r, e). (r, node_of env e)) (rglob t))"
proof (rule plan_nodes, clarify)
  fix r x assume "(r, EFile x) \<in> set (rglob t)"
  with assms show "\<exists>s. substitute env x = Inr s" by (rule renders_files)
qed

lemma copy_into_dir:
  assumes wf: "wf_tree t" and ren: "renders env t"
    and dirs: "\<forall>q. prefix q dst \<and> q \<noteq> [] \<longrightarrow> fs q = Some Dir"
    and clear: "\<forall>(r, e) \<in> set (rglob t). fs (dst @ r) = None"
  shows "render_entries env dst (rglob t) fs =
           (Inr (), place dst (map (\<lambda>(r, e). (r, node_of env e)) (rglob t)) fs)"
proof -
  have d: "\<forall>d \<in> {[]}. \<forall>q. prefix q (dst @ d) \<and> q \<noteq> [] \<longrightarrow> fs q = Some Dir"
    using dirs by simp
  from render_plan [OF ok_rglob [OF wf] d clear, of env] renders_nodes [OF ren]
  show ?thesis by simp
qed

lemma mkdir_existing:
  assumes "\<forall>q. prefix q p \<and> q \<noteq> [] \<longrightarrow> fs q = Some Dir"
  shows "mkdir_parents_exist_ok p fs = Inr fs"
proof -
  have "\<forall>q. prefix q p \<longrightarrow> \<not> is_file fs q"
  proof (intro allI impI)
    fix q assume "prefix q p"
    with assms show "\<not> is_file fs q" by (cases "q = []") (auto simp: is_file_def stat_def)
  qed
  from mkdir_succeeds [OF this] obtain fs' where mk: "mkdir_parents_exist_ok p fs = Inr fs'"
    by blast
  have "fs' = fs"
  proof
    fix q
    from mkdir_changes [OF mk, of q] assms show "fs' q = fs q" by auto
  qed
  with mk show ?thesis by simp
qed

lemma prefix_app_cases: "prefix q (p @ [c]) \<Longrightarrow> q = p @ [c] \<or> prefix q p"
  by (simp add: prefix_snoc)

lemma copytree_copied:
  assumes eb: "empty_below (target_build_dir w) fs"
    and src: "stat fs (butlast (target_src_dir w)) = Some Dir"
  shows "copytree (butlast (target_src_dir w)) (app_build_dir w) fs = Inr (copied w fs)"
proof -
  let ?B = "target_build_dir w" and ?A = "app_build_dir w"
  have A: "?A = ?B @ [''app'']" by (simp add: app_build_dir_def)
  have "strict_prefix ?B ?A" unfolding A by (simp add: strict_prefix_def)
  with eb have none: "stat fs ?A = None" unfolding A by (simp add: empty_below_def stat_def)
  have "\<forall>q \<in> set (prefixes ?A). \<not> is_file fs q"
  proof
    fix q assume "q \<in> set (prefixes ?A)"
    then have "prefix q ?A" by (simp add: in_set_prefixes)
    then have "q = ?A \<or> prefix q ?B" unfolding A by (rule prefix_app_cases)
    then show "\<not> is_file fs q"
    proof
      assume "q = ?A" with none show ?thesis by (simp add: is_file_def)
    next
      assume "prefix q ?B" with eb show ?thesis by (simp add: empty_below_def)
    qed
  qed
  then have "\<not> list_ex (is_file fs) (prefixes ?A)" by (simp add: list_ex_iff)
  with src none show ?thesis by (simp add: copytree_def copied_def)
qed

lemma copied_above:
  assumes eb: "empty_below (target_build_dir w) fs"
    and q: "prefix q (target_build_dir w)" "q \<noteq> []"
  shows "copied w fs q = Some Dir"
proof -
  let ?B = "target_build_dir w" and ?A = "app_build_dir w"
  have A: "?A = ?B @ [''app'']" by (simp add: app_build_dir_def)
  have 1: "\<not> prefix ?A q"
  proof
    assume "prefix ?A q"
    then have "prefix ?A ?B" using q(1) by (rule prefix_order.trans)
    then show False unfolding A by (auto simp: prefix_def)
  qed
  have 2: "prefix q ?A" unfolding A using q(1) by (simp add: prefix_def) (metis append.assoc)
  from eb q(1) have nf: "\<not> is_file fs q" by (simp add: empty_below_def)
  show ?thesis
  proof (cases "stat fs q")
    case None
    with 1 2 show ?thesis by (simp add: copied_def)
  next
    case (Some n)
    with nf have "n = Dir" by (cases n) (auto simp: is_file_def)
    with Some q(2) 1 2 show ?thesis by (simp add: copied_def stat_def)
  qed
qed

lemma copied_below:
  assumes eb: "empty_below (target_build_dir w) fs"
    and q: "strict_prefix (target_build_dir w) q" "\<not> prefix (app_build_dir w) q"
  shows "copied w fs q = None"
proof -
  let ?B = "target_build_dir w" and ?A = "app_build_dir w"
  have A: "?A = ?B @ [''app'']" by (simp add: app_build_dir_def)
  have "\<not> prefix q ?A"
  proof
    assume "prefix q ?A"
    then have "q = ?A \<or> prefix q ?B" unfolding A by (rule prefix_app_cases)
    with q show False by (auto simp: strict_prefix_def)
  qed
  moreover from eb q(1) have "fs q = None" by (simp add: empty_below_def)
  ultimately show ?thesis using q(2) by (simp add: copied_def)
qed

lemma copied_app: "copied w fs (app_build_dir w @ q) = stat fs (butlast (target_src_dir w) @ q)"
  by (simp add: copied_def)

lemma nodes_entry: "(r, n) \<in> set (nodes env t) \<Longrightarrow> \<exists>e. (r, e) \<in> set (rglob t) \<and> n = node_of env e"
  by (auto simp: nodes_def)

lemma nodes_keys: "map fst (nodes env t) = map fst (rglob t)"
  by (simp add: nodes_def comp_def case_prod_beta)

lemma entry_nodes: "(r, e) \<in> set (rglob t) \<Longrightarrow> (r, node_of env e) \<in> set (nodes env t)"
  by (force simp: nodes_def)

lemma top_freeD:
  "top_free t \<Longrightarrow> (r, e) \<in> set (rglob t) \<Longrightarrow> r \<noteq> [] \<and> hd r \<noteq> ''app'' \<and> hd r \<noteq> ''nginx_config''"
  using rglob_nonempty [of r e t] by (auto simp: top_free_def)

lemma not_under: "r \<noteq> [] \<Longrightarrow> hd r \<noteq> c \<Longrightarrow> \<not> prefix (p @ [c]) (p @ r)"
  by (cases r) auto

lemma below_strict: "r \<noteq> [] \<Longrightarrow> strict_prefix p (p @ r)"
  by (simp add: strict_prefix_def)

lemma copied_template_clear:
  assumes eb: "empty_below (target_build_dir w) fs" and r: "r \<noteq> []" "hd r \<noteq> ''app''"
  shows "copied w fs (target_build_dir w @ r) = None"
proof (rule copied_below [OF eb])
  show "strict_prefix (target_build_dir w) (target_build_dir w @ r)" using r(1) by (rule below_strict)
  show "\<not> prefix (app_build_dir w) (target_build_dir w @ r)"
    unfolding app_build_dir_def using r by (rule not_under)
qed

lemma webapp_step:
  assumes eb: "empty_below (target_build_dir w) fs"
    and wf: "wf_tree t" and ren: "renders env t" and tf: "top_free t"
  shows "copy_files_with_substitution env t (target_build_dir w) (copied w fs)
           = (Inr (), place (target_build_dir w) (nodes env t) (copied w fs))"
proof -
  have dirs: "\<forall>q. prefix q (target_build_dir w) \<and> q \<noteq> [] \<longrightarrow> copied w fs q = Some Dir"
    using copied_above [OF eb] by blast
  have clear: "\<forall>(r, e) \<in> set (rglob t). copied w fs (target_build_dir w @ r) = None"
  proof (clarify)
    fix r e assume "(r, e) \<in> set (rglob t)"
    from top_freeD [OF tf this] show "copied w fs (target_build_dir w @ r) = None"
      using copied_template_clear [OF eb] by blast
  qed
  have mk: "mkdir_parents_exist_ok (target_build_dir w) (copied w fs) = Inr (copied w fs)"
    using dirs by (rule mkdir_existing)
  have r: "render_entries env (target_build_dir w) (rglob t) (copied w fs)
             = (Inr (), place (target_build_dir w) (nodes env t) (copied w fs))"
    unfolding nodes_def by (rule copy_into_dir [OF wf ren dirs clear])
  show ?thesis by (simp only: copy_files_with_substitution_def mk sum.case r)
qed

lemma webapp_placed_other:
  assumes tf: "top_free t" and q: "\<And>r. r \<noteq> [] \<Longrightarrow> hd r \<noteq> ''app'' \<Longrightarrow> hd r \<noteq> ''nginx_config'' \<Longrightarrow> q \<noteq> dst @ r"
  shows "place dst (nodes env t) fs q = fs q"
proof (rule place_other, clarify)
  fix r n assume "(r, n) \<in> set (nodes env t)" and eq: "q = dst @ r"
  from nodes_entry [OF this(1)] obtain e where "(r, e) \<in> set (rglob t)" by blast
  from top_freeD [OF tf this] q [of r] eq show False by blast
qed

lemma nginx_step:
  assumes eb: "empty_below (target_build_dir w) fs"
    and wf: "wf_tree t" and ren: "renders env t" and tf: "top_free t'"
    and fs3: "fs3 = place (target_build_dir w) (nodes env' t') (copied w fs)"
  shows "copy_files_with_substitution env t (nginx_build_dir w) fs3
           = (Inr (), place (nginx_build_dir w) (nodes env t) (fs3(nginx_build_dir w \<mapsto> Dir)))"
proof -
  let ?B = "target_build_dir w" and ?N = "nginx_build_dir w"
  have N: "?N = ?B @ [''nginx_config'']" by (simp add: nginx_build_dir_def)
  have above: "fs3 q = Some Dir" if "prefix q ?B" "q \<noteq> []" for q
  proof -
    have "fs3 q = copied w fs q" unfolding fs3
    proof (rule webapp_placed_other [OF tf])
      fix r :: path assume "r \<noteq> []"
      with that(1) show "q \<noteq> ?B @ r" by (auto simp: prefix_def)
    qed
    with copied_above [OF eb that] show ?thesis by simp
  qed
  have below: "fs3 (?N @ r) = None" for r
  proof -
    have "fs3 (?N @ r) = copied w fs (?N @ r)" unfolding fs3
    proof (rule webapp_placed_other [OF tf])
      fix r' :: path assume "r' \<noteq> []" "hd r' \<noteq> ''nginx_config''"
      then show "?N @ r \<noteq> ?B @ r'" unfolding N by (cases r') auto
    qed
    also have "\<dots> = copied w fs (?B @ (''nginx_config'' # r))" unfolding N by simp
    also have "\<dots> = None" by (rule copied_template_clear [OF eb]) simp_all
    finally show ?thesis .
  qed
  have none: "fs3 ?N = None" using below [of "[]"] by simp
  have par: "\<forall>q. prefix q (butlast ?N) \<and> q \<noteq> [] \<longrightarrow> fs3 q = Some Dir"
    unfolding N using above by simp
  have ne: "?N \<noteq> []" unfolding N by simp
  have mk: "mkdir_parents_exist_ok ?N fs3 = Inr (fs3(?N \<mapsto> Dir))"
    using ne par none by (rule mkdir_fresh_child)
  have dirs: "\<forall>q. prefix q ?N \<and> q \<noteq> [] \<longrightarrow> (fs3(?N \<mapsto> Dir)) q = Some Dir"
  proof (intro allI impI)
    fix q assume q: "prefix q ?N \<and> q \<noteq> []"
    then have "prefix q (?B @ [''nginx_config''])" unfolding N by simp
    then have "q = ?B @ [''nginx_config''] \<or> prefix q ?B" by (rule prefix_app_cases)
    then have "q = ?N \<or> prefix q ?B" unfolding N .
    then show "(fs3(?N \<mapsto> Dir)) q = Some Dir"
    proof
      assume "q = ?N" then show ?thesis by simp
    next
      assume "prefix q ?B"
      with q above have "fs3 q = Some Dir" by blast
      then show ?thesis by simp
    qed
  qed
  have clear: "\<forall>(r, e) \<in> set (rglob t). (fs3(?N \<mapsto> Dir)) (?N @ r) = None"
  proof (clarify)
    fix r e assume "(r, e) \<in> set (rglob t)"
    then have "r \<noteq> []" by (rule rglob_nonempty)
    then have "(fs3(?N \<mapsto> Dir)) (?N @ r) = fs3 (?N @ r)" by simp
    with below show "(fs3(?N \<mapsto> Dir)) (?N @ r) = None" by simp
  qed
  have r: "render_entries env ?N (rglob t) (fs3(?N \<mapsto> Dir))
             = (Inr (), place ?N (nodes env t) (fs3(?N \<mapsto> Dir)))"
    unfolding nodes_def by (rule copy_into_dir [OF wf ren dirs clear])
  show ?thesis by (simp only: copy_files_with_substitution_def mk sum.case r)
qed

lemma build_built:
  assumes fs1: "fs1 = (if clean then rmtree_ignore_errors (target_build_dir w) fs else fs)"
    and eb: "empty_below (target_build_dir w) fs1"
    and src: "stat fs1 (butlast (target_src_dir w)) = Some Dir"
    and wfW: "wf_tree (WEBAPP_CONFIG_DIR I)" and wfN: "wf_tree (NGINX_CONFIG_DIR I)"
    and renW: "renders (build_env w (os_environ I)) (WEBAPP_CONFIG_DIR I)"
    and renN: "renders (build_env w (os_environ I)) (NGINX_CONFIG_DIR I)"
    and tf: "top_free (WEBAPP_CONFIG_DIR I)"
    and dc: "([''docker-compose.yaml''], EFile tmpl) \<in> set (rglob (WEBAPP_CONFIG_DIR I))"
    and sub: "substitute (build_env w (os_environ I)) tmpl = Inr s"
    and load: "yaml_load (yaml_library I) s = Some (h, data)"
    and sv: "getitem h data ''services'' = Inr services"
    and ap: "getitem h services (target_name w) = Inr (YRef r)"
    and ob: "lookup h r = Some (OMap service)"
  shows "build I w clean fs =
           (Inr (), built I w (compose_doc h data r service (bind_ports w)) fs1)"
proof -
  let ?B = "target_build_dir w" and ?N = "nginx_build_dir w"
  let ?env = "build_env w (os_environ I)"
  let ?dc = "[''docker-compose.yaml'']"
  define fs3 where "fs3 = place ?B (nodes ?env (WEBAPP_CONFIG_DIR I)) (copied w fs1)"
  define fs4 where "fs4 = place ?N (nodes ?env (NGINX_CONFIG_DIR I)) (fs3(?N \<mapsto> Dir))"
  have N: "?N = ?B @ [''nginx_config'']" by (simp add: nginx_build_dir_def)
  have c: "copytree (butlast (target_src_dir w)) (app_build_dir w) fs1 = Inr (copied w fs1)"
    using eb src by (rule copytree_copied)
  have w: "copy_files_with_substitution ?env (WEBAPP_CONFIG_DIR I) ?B (copied w fs1) = (Inr (), fs3)"
    unfolding fs3_def using eb wfW renW tf by (rule webapp_step)
  have n: "copy_files_with_substitution ?env (NGINX_CONFIG_DIR I) (?B @ [''nginx_config'']) fs3
             = (Inr (), fs4)"
    unfolding fs4_def N [symmetric] using eb wfN renN tf fs3_def by (rule nginx_step)
  have "fs4 (?B @ ?dc) = (fs3(?N \<mapsto> Dir)) (?B @ ?dc)"
    unfolding fs4_def by (rule place_other) (simp add: N case_prod_beta)
  also have "\<dots> = fs3 (?B @ ?dc)" by (simp add: N)
  also have "\<dots> = Some (node_of ?env (EFile tmpl))"
    unfolding fs3_def
  proof (rule place_at)
    show "distinct (map fst (nodes ?env (WEBAPP_CONFIG_DIR I)))"
      unfolding nodes_keys using wfW by (rule rglob_distinct)
    show "(?dc, node_of ?env (EFile tmpl)) \<in> set (nodes ?env (WEBAPP_CONFIG_DIR I))"
      using dc by (rule entry_nodes)
  qed
  also have "\<dots> = Some (File s)" using sub by simp
  finally have rd: "fs4 (?B @ ?dc) = Some (File s)" .
  have cc: "configure_compose (yaml_library I) ?B (target_name w) (bind_ports w) fs4
              = (Inr (), fs4(?B @ ?dc \<mapsto> File (yaml_dump (yaml_library I)
                   (compose_doc h data r service (bind_ports w)))))"
    unfolding compose_doc_def
    by (rule configure_compose_result [where fs = fs4 and dir = ?B, OF rd load sv ap ob])
  have b: "built I w (compose_doc h data r service (bind_ports w)) fs1
             = fs4(?B @ ?dc \<mapsto> File (yaml_dump (yaml_library I)
                   (compose_doc h data r service (bind_ports w))))"
    unfolding built_def fs4_def fs3_def ..
  show ?thesis
    unfolding b
    by (simp only: build_def Let_def fs1 [symmetric] c w n cc sum.case prod.case)
qed


lemma built_skip:
  assumes c: "q \<noteq> target_build_dir w @ [''docker-compose.yaml'']"
    and n: "\<forall>(r, n) \<in> set (nodes (build_env w (os_environ I)) (NGINX_CONFIG_DIR I)). q \<noteq> nginx_build_dir w @ r"
    and d: "q \<noteq> nginx_build_dir w"
    and t: "\<forall>(r, n) \<in> set (nodes (build_env w (os_environ I)) (WEBAPP_CONFIG_DIR I)). q \<noteq> target_build_dir w @ r"
  shows "built I w doc fs q = copied w fs q"
proof -
  let ?B = "target_build_dir w" and ?N = "nginx_build_dir w"
  let ?env = "build_env w (os_environ I)"
  let ?fs3 = "place ?B (nodes ?env (WEBAPP_CONFIG_DIR I)) (copied w fs)"
  have "built I w doc fs q = place ?N (nodes ?env (NGINX_CONFIG_DIR I)) (?fs3(?N \<mapsto> Dir)) q"
    unfolding built_def using c by simp
  also have "\<dots> = (?fs3(?N \<mapsto> Dir)) q" using n by (rule place_other)
  also have "\<dots> = ?fs3 q" using d by simp
  also have "\<dots> = copied w fs q" using t by (rule place_other)
  finally show ?thesis .
qed

lemma nginx_nodes_off:
  assumes "\<not> prefix (nginx_build_dir w) q"
  shows "\<forall>(r, n) \<in> set ws. q \<noteq> nginx_build_dir w @ r"
  using assms by auto

lemma webapp_nodes_off:
  assumes tf: "top_free t"
    and q: "\<And>r. r \<noteq> [] \<Longrightarrow> hd r \<noteq> ''app'' \<Longrightarrow> hd r \<noteq> ''nginx_config'' \<Longrightarrow> q \<noteq> dst @ r"
  shows "\<forall>(r, n) \<in> set (nodes env t). q \<noteq> dst @ r"
proof (clarify)
  fix r n assume "(r, n) \<in> set (nodes env t)" and eq: "q = dst @ r"
  from nodes_entry [OF this(1)] obtain e where "(r, e) \<in> set (rglob t)" by blast
  from top_freeD [OF tf this] q [of r] eq show False by blast
qed

lemma built_app:
  assumes tf: "top_free (WEBAPP_CONFIG_DIR I)"
  shows "built I w doc fs (app_build_dir w @ q) = stat fs (butlast (target_src_dir w) @ q)"
proof -
  let ?B = "target_build_dir w" and ?N = "nginx_build_dir w" and ?A = "app_build_dir w"
  have A: "?A @ q = ?B @ (''app'' # q)" by (simp add: app_build_dir_def)
  have N: "?N = ?B @ [''nginx_config'']" by (simp add: nginx_build_dir_def)
  have 1: "?A @ q \<noteq> ?B @ [''docker-compose.yaml'']" unfolding A by simp
  have np: "\<not> prefix ?N (?A @ q)" unfolding A N by simp
  have 3: "?A @ q \<noteq> ?N" unfolding A N by simp
  have 4: "\<forall>(r, n) \<in> set (nodes (build_env w (os_environ I)) (WEBAPP_CONFIG_DIR I)). ?A @ q \<noteq> ?B @ r"
  proof (rule webapp_nodes_off [OF tf])
    fix r :: path assume "r \<noteq> []" "hd r \<noteq> ''app''"
    then show "?A @ q \<noteq> ?B @ r" unfolding A by (cases r) auto
  qed
  have "built I w doc fs (?A @ q) = copied w fs (?A @ q)"
    using 1 nginx_nodes_off [OF np] 3 4 by (rule built_skip)
  then show ?thesis by (simp only: copied_app)
qed












lemma demo_trees:
  "WEBAPP_CONFIG_DIR demo_install =
     TDir [(''docker-compose.yaml'', TFile ''services: {${TARGET_NAME}: {build: ., ports: null}}'')]"
  "NGINX_CONFIG_DIR demo_install = TDir [(''site.conf'', TFile ''server_name ${DOMAIN_NAME};'')]"
  by (simp_all add: demo_install_def)

lemma demo_wf: "wf_tree (WEBAPP_CONFIG_DIR demo_install)" "wf_tree (NGINX_CONFIG_DIR demo_install)"
  by (simp_all add: demo_trees)

lemma demo_renders:
  "renders (build_env demo_webapp (os_environ demo_install)) (WEBAPP_CONFIG_DIR demo_install)"
  "renders (build_env demo_webapp (os_environ demo_install)) (NGINX_CONFIG_DIR demo_install)"
  by (simp_all add: renders_def demo_trees is_valid_def get_identifiers_def idstart_def idchar_def demo_env)

lemma demo_top_free: "top_free (WEBAPP_CONFIG_DIR demo_install)"
  by (simp add: top_free_def demo_trees)

lemma demo_dc:
  "([''docker-compose.yaml''], EFile ''services: {${TARGET_NAME}: {build: ., ports: null}}'')
     \<in> set (rglob (WEBAPP_CONFIG_DIR demo_install))"
  by (simp add: demo_trees)


lemma demo_load:
  "yaml_load (yaml_library demo_install) ''services: {shop: {build: ., ports: null}}'' =
     Some (fst demo_compose, YRef 0)"
  by (simp add: demo_install_def demo_yaml_def demo_compose_def)

lemma demo_services:
  "getitem (fst demo_compose) (YRef 0) ''services'' = Inr (YRef 1)"
  "getitem (fst demo_compose) (YRef 1) (target_name demo_webapp) = Inr (YRef 2)"
  "lookup (fst demo_compose) 2 = Some (OMap [(''build'', YStr ''.''), (''ports'', YNull)])"
  by (simp_all add: demo_webapp_def demo_compose_def getitem_def lookup_def)

lemma demo_dirs:
  "target_build_dir demo_webapp = [''repo'', ''build'', ''shop'']"
  "butlast (target_src_dir demo_webapp) = [''repo'', ''apps'', ''shop'', ''src'']"
  "app_build_dir demo_webapp = [''repo'', ''build'', ''shop'', ''app'']"
  by (simp_all add: demo_webapp_def app_build_dir_def)


lemma scaffold_empty_below: "empty_below (target_build_dir demo_webapp) scaffold_fs"
  by (auto simp: empty_below_def demo_dirs scaffold_fs_def is_file_def stat_def strict_prefix_def prefix_Cons)

theorem build_without_clean_witness:
  "stat collide_fs (app_build_dir demo_webapp) \<noteq> None
   \<and> build demo_install demo_webapp False collide_fs = (Inl (SystemExit 1), collide_fs)"
proof -
  have a: "stat collide_fs (app_build_dir demo_webapp) \<noteq> None"
    by (simp add: demo_dirs collide_fs_def stat_def)
  have src: "stat collide_fs (butlast (target_src_dir demo_webapp)) = Some Dir"
    by (simp add: demo_dirs collide_fs_def scaffold_fs_def stat_def)
  from build_without_clean [OF a, of demo_install] obtain e where
    run: "build demo_install demo_webapp False collide_fs = (Inl e, collide_fs)"
    and e: "stat collide_fs (butlast (target_src_dir demo_webapp)) = Some Dir \<longrightarrow> e = SystemExit 1"
    by blast
  from e src have "e = SystemExit 1" by blast
  with run a show ?thesis by simp
qed

lemma scaffold_src: "stat scaffold_fs (butlast (target_src_dir demo_webapp)) = Some Dir"
  by (simp add: demo_dirs scaffold_fs_def stat_def)

theorem build_existing_dir_counterexample:
  "stat scaffold_fs (target_build_dir demo_webapp) = Some Dir
   \<and> scaffold_fs (app_build_dir demo_webapp) = None
   \<and> fst (build demo_install demo_webapp False scaffold_fs) = Inr ()
   \<and> snd (build demo_install demo_webapp False scaffold_fs) (app_build_dir demo_webapp) = Some Dir"
proof -
  let ?doc = "compose_doc (fst demo_compose) (YRef 0) 2 [(''build'', YStr ''.''), (''ports'', YNull)]
                (bind_ports demo_webapp)"
  have fs1: "scaffold_fs = (if False then rmtree_ignore_errors (target_build_dir demo_webapp) scaffold_fs
                           else scaffold_fs)"
    by simp
  have run: "build demo_install demo_webapp False scaffold_fs
               = (Inr (), built demo_install demo_webapp ?doc scaffold_fs)"
    using fs1 scaffold_empty_below scaffold_src demo_wf demo_renders demo_top_free demo_dc
      demo_subst(1) demo_load demo_services
    by (rule build_built)
  have "built demo_install demo_webapp ?doc scaffold_fs (app_build_dir demo_webapp @ [])
          = stat scaffold_fs (butlast (target_src_dir demo_webapp) @ [])"
    using demo_top_free by (rule built_app)
  with scaffold_src have app: "built demo_install demo_webapp ?doc scaffold_fs (app_build_dir demo_webapp) = Some Dir"
    by simp
  have 1: "stat scaffold_fs (target_build_dir demo_webapp) = Some Dir"
    by (simp add: demo_dirs scaffold_fs_def stat_def)
  have 2: "scaffold_fs (app_build_dir demo_webapp) = None"
    by (simp add: demo_dirs scaffold_fs_def)
  from 1 2 run app show ?thesis by simp
qed



end
